theory Spec2Isabelle
  imports Main "HOL-Library.Word" "HOL-Library.Finite_Map"
begin

unbundle bit_operations_syntax

section \<open>Compile-time parameters\<close>

text \<open>
  The index is a class template over \<open>KeyType\<close>, \<open>ValueType\<close> and \<open>KeyComparator\<close>.
  Keys and values are the type variables \<open>'k\<close> and \<open>'v\<close>; the comparator is used for
  equality only (\<open>cmp(a, b) == 0\<close>) and is modelled by \<open>=\<close>.  What the templates take
  from headers that are not part of the sources is collected in one record:
  the macro \<open>BUCKET_ARRAY_SIZE\<close>, the hash function object, and the
  value-initialised key and value (\<open>KeyType{}\<close>, \<open>ValueType{}\<close>), which is also what a
  slot of a zero-filled new page reads as.
\<close>

record ('k, 'v) params =
  BUCKET_ARRAY_SIZE :: nat
  hash_fn :: "'k \<Rightarrow> 64 word"
  key_init :: 'k
  value_init :: 'v

section \<open>Bucket page (hash\_table\_bucket\_page.cpp)\<close>

text \<open>
  The two bitmaps are \<open>char\<close> arrays of \<open>(BUCKET_ARRAY_SIZE - 1) / 8 + 1\<close> bytes.
  \<open>char\<close> is a signed 8-bit integer on the platforms the system is built for; in an
  expression it is promoted to a 32-bit \<open>int\<close> by sign extension, and an \<open>int\<close> stored
  into a \<open>char\<close> keeps its low 8 bits.
\<close>

definition char_to_int :: "8 word \<Rightarrow> 32 word" where
  "char_to_int c = scast c"

definition int_to_char :: "32 word \<Rightarrow> 8 word" where
  "int_to_char n = ucast n"

record ('k, 'v) bucket =
  occupied :: "8 word list"
  readable :: "8 word list"
  array :: "('k \<times> 'v) list"

definition IsOccupied :: "('k, 'v) bucket \<Rightarrow> nat \<Rightarrow> bool" where
  "IsOccupied b bucket_idx =
     (let index = bucket_idx div 8; offset = bucket_idx mod 8
      in char_to_int (occupied b ! index) AND push_bit offset 1 \<noteq> 0)"

definition SetOccupied :: "('k, 'v) bucket \<Rightarrow> nat \<Rightarrow> ('k, 'v) bucket" where
  "SetOccupied b bucket_idx =
     (let index = bucket_idx div 8; offset = bucket_idx mod 8
      in b\<lparr>occupied := (occupied b)
            [index := int_to_char (char_to_int (occupied b ! index) OR push_bit offset 1)]\<rparr>)"

definition IsReadable :: "('k, 'v) bucket \<Rightarrow> nat \<Rightarrow> bool" where
  "IsReadable b bucket_idx =
     (let index = bucket_idx div 8; offset = bucket_idx mod 8
      in char_to_int (readable b ! index) AND push_bit offset 1 \<noteq> 0)"

definition SetReadable :: "('k, 'v) bucket \<Rightarrow> nat \<Rightarrow> ('k, 'v) bucket" where
  "SetReadable b bucket_idx =
     (let index = bucket_idx div 8; offset = bucket_idx mod 8
      in b\<lparr>readable := (readable b)
            [index := int_to_char (char_to_int (readable b ! index) OR push_bit offset 1)]\<rparr>)"

definition SetUnreadable :: "('k, 'v) bucket \<Rightarrow> nat \<Rightarrow> ('k, 'v) bucket" where
  "SetUnreadable b bucket_idx =
     (let index = bucket_idx div 8; offset = bucket_idx mod 8
      in b\<lparr>readable := (readable b)
            [index := int_to_char (char_to_int (readable b ! index) AND NOT (push_bit offset 1))]\<rparr>)"

text \<open>
  \<open>GetValue\<close>: the loop over the slots, with the result vector and the flag threaded
  through; \<open>break\<close> leaves the loop with what has been collected.
\<close>

function GetValue_loop ::
  "nat \<Rightarrow> nat \<Rightarrow> ('k, 'v) bucket \<Rightarrow> 'k \<Rightarrow> 'v list \<Rightarrow> bool \<Rightarrow> 'v list \<times> bool" where
  "GetValue_loop n i b key result flag =
     (if i < n then
        (if IsReadable b i \<and> fst (array b ! i) = key
         then GetValue_loop n (i + 1) b key (result @ [snd (array b ! i)]) True
         else if \<not> IsOccupied b i then (result, flag)
         else GetValue_loop n (i + 1) b key result flag)
      else (result, flag))"
  by pat_completeness auto
termination
  by (relation "measure (\<lambda>(n, i, b, key, result, flag). n - i)") auto

declare GetValue_loop.simps [simp del]

definition Bucket_GetValue ::
  "('k, 'v) params \<Rightarrow> ('k, 'v) bucket \<Rightarrow> 'k \<Rightarrow> 'v list \<Rightarrow> bool \<times> 'v list" where
  "Bucket_GetValue P b key result =
     (let (result', flag) = GetValue_loop (BUCKET_ARRAY_SIZE P) 0 b key result False
      in (flag, result'))"

text \<open>
  \<open>Insert\<close>: the scan returns \<open>None\<close> where the source returns \<open>false\<close> from inside the
  loop (an equal pair is readable), and otherwise the value of \<open>insert_index\<close> when
  the loop is left.
\<close>

function Insert_loop ::
  "nat \<Rightarrow> nat \<Rightarrow> ('k, 'v) bucket \<Rightarrow> 'k \<Rightarrow> 'v \<Rightarrow> nat \<Rightarrow> nat option" where
  "Insert_loop n i b key val insert_index =
     (if i < n then
        (if IsReadable b i \<and> fst (array b ! i) = key \<and> snd (array b ! i) = val
         then None
         else if \<not> IsReadable b i then
           (let insert_index' = (if insert_index = n then i else insert_index)
            in if \<not> IsOccupied b i then Some insert_index'
               else Insert_loop n (i + 1) b key val insert_index')
         else Insert_loop n (i + 1) b key val insert_index)
      else Some insert_index)"
  by pat_completeness auto
termination
  by (relation "measure (\<lambda>(n, i, b, key, val, insert_index). n - i)") auto

declare Insert_loop.simps [simp del]

definition Bucket_Insert ::
  "('k, 'v) params \<Rightarrow> ('k, 'v) bucket \<Rightarrow> 'k \<Rightarrow> 'v \<Rightarrow> bool \<times> ('k, 'v) bucket" where
  "Bucket_Insert P b key val =
     (let bucket_array_size = BUCKET_ARRAY_SIZE P
      in case Insert_loop bucket_array_size 0 b key val bucket_array_size of
           None \<Rightarrow> (False, b)
         | Some insert_index \<Rightarrow>
             if insert_index = bucket_array_size then (False, b)
             else (True,
               SetReadable (SetOccupied
                 (b\<lparr>array := (array b)[insert_index := (key, val)]\<rparr>) insert_index)
                 insert_index))"

function Remove_loop ::
  "nat \<Rightarrow> nat \<Rightarrow> ('k, 'v) bucket \<Rightarrow> 'k \<Rightarrow> 'v \<Rightarrow> bool \<times> ('k, 'v) bucket" where
  "Remove_loop n i b key val =
     (if i < n then
        (if IsReadable b i \<and> fst (array b ! i) = key \<and> snd (array b ! i) = val
         then (True, SetUnreadable b i)
         else if \<not> IsOccupied b i then (False, b)
         else Remove_loop n (i + 1) b key val)
      else (False, b))"
  by pat_completeness auto
termination
  by (relation "measure (\<lambda>(n, i, b, key, val). n - i)") auto

declare Remove_loop.simps [simp del]

definition Bucket_Remove ::
  "('k, 'v) params \<Rightarrow> ('k, 'v) bucket \<Rightarrow> 'k \<Rightarrow> 'v \<Rightarrow> bool \<times> ('k, 'v) bucket" where
  "Bucket_Remove P b key val = Remove_loop (BUCKET_ARRAY_SIZE P) 0 b key val"

definition KeyAt :: "('k, 'v) params \<Rightarrow> ('k, 'v) bucket \<Rightarrow> nat \<Rightarrow> 'k" where
  "KeyAt P b bucket_idx =
     (if IsReadable b bucket_idx then fst (array b ! bucket_idx) else key_init P)"

definition ValueAt :: "('k, 'v) params \<Rightarrow> ('k, 'v) bucket \<Rightarrow> nat \<Rightarrow> 'v" where
  "ValueAt P b bucket_idx =
     (if IsReadable b bucket_idx then snd (array b ! bucket_idx) else value_init P)"

definition RemoveAt :: "('k, 'v) bucket \<Rightarrow> nat \<Rightarrow> ('k, 'v) bucket" where
  "RemoveAt b bucket_idx = SetUnreadable b bucket_idx"

text \<open>
  \<open>IsFull\<close>: the loop over the whole bytes returns \<open>false\<close> at the first byte that differs
  from \<open>static_cast<char>(0xff)\<close>; both sides of each comparison are \<open>char\<close>s promoted
  to \<open>int\<close>.
\<close>

function IsFull_loop :: "nat \<Rightarrow> nat \<Rightarrow> ('k, 'v) bucket \<Rightarrow> bool" where
  "IsFull_loop exact_div_size i b =
     (if i < exact_div_size then
        (if char_to_int (readable b ! i) \<noteq> char_to_int (int_to_char 0xff) then False
         else IsFull_loop exact_div_size (i + 1) b)
      else True)"
  by pat_completeness auto
termination
  by (relation "measure (\<lambda>(n, i, b). n - i)") auto

declare IsFull_loop.simps [simp del]

definition IsFull :: "('k, 'v) params \<Rightarrow> ('k, 'v) bucket \<Rightarrow> bool" where
  "IsFull P b =
     (let exact_div_size = BUCKET_ARRAY_SIZE P div 8
      in if \<not> IsFull_loop exact_div_size 0 b then False
         else
           (let rest = BUCKET_ARRAY_SIZE P - BUCKET_ARRAY_SIZE P div 8 * 8
            in \<not> (rest \<noteq> 0 \<and>
                  char_to_int (readable b ! ((BUCKET_ARRAY_SIZE P - 1) div 8)) \<noteq>
                  char_to_int (int_to_char (push_bit rest 1 - 1)))))"

definition Bucket_Size :: "('k, 'v) params \<Rightarrow> nat" where
  "Bucket_Size P = BUCKET_ARRAY_SIZE P"

text \<open>
  \<open>NumReadable\<close>: \<open>n\<close> is an \<open>int\<close>, the sign-extended byte; the inner loop clears the
  lowest set bit of \<open>n\<close> until \<open>n\<close> is zero.  \<open>n - 1\<close> is taken in 32-bit two's
  complement.
\<close>

function NumReadable_while :: "32 word \<Rightarrow> 32 word \<Rightarrow> 32 word" where
  "NumReadable_while n cnt =
     (if n \<noteq> 0 then NumReadable_while (n AND (n - 1)) (cnt + 1) else cnt)"
  by pat_completeness auto
termination
proof (relation "measure (\<lambda>(n, cnt). unat n)")
  show "wf (measure (\<lambda>(n :: 32 word, cnt :: 32 word). unat n))"
    by simp
next
  fix n cnt :: "32 word"
  assume n: "n \<noteq> 0"
  have "n AND (n - 1) \<le> n - 1"
    by (rule word_and_le1)
  moreover have "n - 1 < n"
    using n by (simp add: word_less_nat_alt unat_minus_one unat_gt_0)
  ultimately have "n AND (n - 1) < n"
    by simp
  then show "((n AND (n - 1), cnt + 1), (n, cnt)) \<in> measure (\<lambda>(n, cnt). unat n)"
    by (simp add: word_less_nat_alt)
qed

declare NumReadable_while.simps [simp del]

function NumReadable_loop :: "nat \<Rightarrow> nat \<Rightarrow> ('k, 'v) bucket \<Rightarrow> 32 word \<Rightarrow> 32 word" where
  "NumReadable_loop read_array_size i b cnt =
     (if i < read_array_size
      then NumReadable_loop read_array_size (i + 1) b
             (NumReadable_while (char_to_int (readable b ! i)) cnt)
      else cnt)"
  by pat_completeness auto
termination
  by (relation "measure (\<lambda>(n, i, b, cnt). n - i)") auto

declare NumReadable_loop.simps [simp del]

definition NumReadable :: "('k, 'v) params \<Rightarrow> ('k, 'v) bucket \<Rightarrow> 32 word" where
  "NumReadable P b =
     (let read_array_size = (BUCKET_ARRAY_SIZE P - 1) div 8 + 1
      in NumReadable_loop read_array_size 0 b 0)"

function IsEmpty_loop :: "nat \<Rightarrow> nat \<Rightarrow> ('k, 'v) bucket \<Rightarrow> bool" where
  "IsEmpty_loop read_array_size i b =
     (if i < read_array_size then
        (if char_to_int (readable b ! i) \<noteq> char_to_int (int_to_char 0) then False
         else IsEmpty_loop read_array_size (i + 1) b)
      else True)"
  by pat_completeness auto
termination
  by (relation "measure (\<lambda>(n, i, b). n - i)") auto

declare IsEmpty_loop.simps [simp del]

definition IsEmpty :: "('k, 'v) params \<Rightarrow> ('k, 'v) bucket \<Rightarrow> bool" where
  "IsEmpty P b = IsEmpty_loop ((BUCKET_ARRAY_SIZE P - 1) div 8 + 1) 0 b"

text \<open>\<open>GetAllItem\<close>: the pairs of the readable slots, in the order of the slots.\<close>

definition GetAllItem :: "('k, 'v) params \<Rightarrow> ('k, 'v) bucket \<Rightarrow> ('k \<times> 'v) list" where
  "GetAllItem P b =
     map (\<lambda>i. array b ! i) (filter (\<lambda>i. IsReadable b i) [0..<BUCKET_ARRAY_SIZE P])"


section \<open>Directory page\<close>

text \<open>
  Modelled from the spec: the class \<open>HashTableDirectoryPage\<close>
  (hash\_table\_directory\_page.cpp is not part of the sources; the table calls its
  methods).  The page holds \<open>global_depth: u32\<close>, \<open>local_depths[MAX_SIZE]: u8\<close> and
  \<open>bucket_page_ids[MAX_SIZE]\<close>; every getter returns a \<open>uint32_t\<close>.  The two arrays are
  total functions of the \<open>uint32_t\<close> index, so the capacity \<open>MAX_SIZE\<close> of the page is
  not part of the model: the properties below carry the bound on the global depth
  as a hypothesis.  A shift \<open>1 << n\<close> is \<open>push_bit n 1\<close>, which is \<open>0\<close> for \<open>n \<ge> 32\<close>, where
  C++ leaves the shift undefined.
\<close>

type_synonym page_id_t = int

record directory =
  global_depth :: "32 word"
  local_depths :: "32 word \<Rightarrow> 8 word"
  bucket_page_ids :: "32 word \<Rightarrow> page_id_t"

definition GetGlobalDepth :: "directory \<Rightarrow> 32 word" where
  "GetGlobalDepth d = global_depth d"

definition IncrGlobalDepth :: "directory \<Rightarrow> directory" where
  "IncrGlobalDepth d = d\<lparr>global_depth := global_depth d + 1\<rparr>"

definition DecrGlobalDepth :: "directory \<Rightarrow> directory" where
  "DecrGlobalDepth d = d\<lparr>global_depth := global_depth d - 1\<rparr>"

definition GetGlobalDepthMask :: "directory \<Rightarrow> 32 word" where
  "GetGlobalDepthMask d = push_bit (unat (global_depth d)) 1 - 1"

definition Size :: "directory \<Rightarrow> 32 word" where
  "Size d = push_bit (unat (global_depth d)) 1"

definition GetLocalDepth :: "directory \<Rightarrow> 32 word \<Rightarrow> 32 word" where
  "GetLocalDepth d bucket_idx = ucast (local_depths d bucket_idx)"

definition SetLocalDepth :: "directory \<Rightarrow> 32 word \<Rightarrow> 32 word \<Rightarrow> directory" where
  "SetLocalDepth d bucket_idx local_depth =
     d\<lparr>local_depths := (local_depths d)(bucket_idx := ucast local_depth)\<rparr>"

definition IncrLocalDepth :: "directory \<Rightarrow> 32 word \<Rightarrow> directory" where
  "IncrLocalDepth d bucket_idx =
     d\<lparr>local_depths := (local_depths d)(bucket_idx := local_depths d bucket_idx + 1)\<rparr>"

definition DecrLocalDepth :: "directory \<Rightarrow> 32 word \<Rightarrow> directory" where
  "DecrLocalDepth d bucket_idx =
     d\<lparr>local_depths := (local_depths d)(bucket_idx := local_depths d bucket_idx - 1)\<rparr>"

definition GetLocalDepthMask :: "directory \<Rightarrow> 32 word \<Rightarrow> 32 word" where
  "GetLocalDepthMask d bucket_idx = push_bit (unat (GetLocalDepth d bucket_idx)) 1 - 1"

definition GetBucketPageId :: "directory \<Rightarrow> 32 word \<Rightarrow> page_id_t" where
  "GetBucketPageId d bucket_idx = bucket_page_ids d bucket_idx"

definition SetBucketPageId :: "directory \<Rightarrow> 32 word \<Rightarrow> page_id_t \<Rightarrow> directory" where
  "SetBucketPageId d bucket_idx bucket_page_id =
     d\<lparr>bucket_page_ids := (bucket_page_ids d)(bucket_idx := bucket_page_id)\<rparr>"

definition GetSplitImageIndex :: "directory \<Rightarrow> 32 word \<Rightarrow> 32 word" where
  "GetSplitImageIndex d bucket_idx =
     bucket_idx XOR push_bit (unat (GetLocalDepth d bucket_idx - 1)) 1"

text \<open>The index values of \<open>for (uint32_t i = lo; i < hi; i++)\<close>, in order.\<close>

definition index_range :: "32 word \<Rightarrow> 32 word \<Rightarrow> 32 word list" where
  "index_range lo hi = map of_nat [unat lo..<unat hi]"

definition CanShrink :: "directory \<Rightarrow> bool" where
  "CanShrink d =
     (\<forall>i \<in> set (index_range 0 (Size d)). GetLocalDepth d i < GetGlobalDepth d)"

section \<open>Buffer pool and table state\<close>

text \<open>
  Modelled from the spec: the buffer pool manager (\<open>NewPage\<close>, \<open>FetchPage\<close>,
  \<open>UnpinPage\<close>, \<open>DeletePage\<close>; its code is not part of the sources).  The pool is the
  finite map from the ids of the live bucket pages to their contents, and the next
  id \<open>NewPage\<close> hands out; a new page is zero-filled.  Fetching a page that is not
  live has no result (\<open>None\<close>).  The table runs single-threaded here: latches and pin
  counts are not interpreted.  The directory page is held beside the pool.
\<close>

record ('k, 'v) table =
  dir_page :: directory
  pages :: "(page_id_t, ('k, 'v) bucket) fmap"
  next_page_id :: page_id_t

definition new_bucket_page :: "('k, 'v) params \<Rightarrow> ('k, 'v) bucket" where
  "new_bucket_page P =
     \<lparr>occupied = replicate ((BUCKET_ARRAY_SIZE P - 1) div 8 + 1) 0,
      readable = replicate ((BUCKET_ARRAY_SIZE P - 1) div 8 + 1) 0,
      array = replicate (BUCKET_ARRAY_SIZE P) (key_init P, value_init P)\<rparr>"

definition new_directory_page :: directory where
  "new_directory_page =
     \<lparr>global_depth = 0, local_depths = (\<lambda>i. 0), bucket_page_ids = (\<lambda>i. 0)\<rparr>"

definition FetchBucketPage :: "('k, 'v) table \<Rightarrow> page_id_t \<Rightarrow> ('k, 'v) bucket option" where
  "FetchBucketPage s bucket_page_id = fmlookup (pages s) bucket_page_id"

definition CreateBucketPage :: "('k, 'v) params \<Rightarrow> ('k, 'v) table \<Rightarrow> page_id_t \<times> ('k, 'v) table" where
  "CreateBucketPage P s =
     (next_page_id s,
      s\<lparr>pages := fmupd (next_page_id s) (new_bucket_page P) (pages s),
        next_page_id := next_page_id s + 1\<rparr>)"

definition store_page :: "('k, 'v) table \<Rightarrow> page_id_t \<Rightarrow> ('k, 'v) bucket \<Rightarrow> ('k, 'v) table" where
  "store_page s bucket_page_id b = s\<lparr>pages := fmupd bucket_page_id b (pages s)\<rparr>"

definition DeletePage :: "('k, 'v) table \<Rightarrow> page_id_t \<Rightarrow> ('k, 'v) table" where
  "DeletePage s page_id = s\<lparr>pages := fmdrop page_id (pages s)\<rparr>"

section \<open>Extendible hash table (extendible\_hash\_table.cpp)\<close>

text \<open>
  The constructor takes page 0 for the directory and page 1 for the first bucket,
  and stores the bucket's id in slot 0 of the directory.
\<close>

definition ExtendibleHashTable :: "('k, 'v) params \<Rightarrow> ('k, 'v) table" where
  "ExtendibleHashTable P =
     (let directory_page_id = (0 :: page_id_t);
          s0 = \<lparr>dir_page = new_directory_page, pages = fmempty,
                next_page_id = directory_page_id + 1\<rparr>;
          (bucket_page_id, s1) = CreateBucketPage P s0
      in s1\<lparr>dir_page := SetBucketPageId (dir_page s1) 0 bucket_page_id\<rparr>)"

definition Hash :: "('k, 'v) params \<Rightarrow> 'k \<Rightarrow> 32 word" where
  "Hash P key = ucast (hash_fn P key)"

definition KeyToDirectoryIndex :: "('k, 'v) params \<Rightarrow> 'k \<Rightarrow> directory \<Rightarrow> 32 word" where
  "KeyToDirectoryIndex P key d = Hash P key AND GetGlobalDepthMask d"

definition KeyToPageId :: "('k, 'v) params \<Rightarrow> 'k \<Rightarrow> directory \<Rightarrow> page_id_t" where
  "KeyToPageId P key d = GetBucketPageId d (KeyToDirectoryIndex P key d)"

definition GetValue ::
  "('k, 'v) params \<Rightarrow> ('k, 'v) table \<Rightarrow> 'k \<Rightarrow> 'v list \<Rightarrow> (bool \<times> 'v list) option" where
  "GetValue P s key result =
     (let d = dir_page s;
          bucket_page_id = KeyToPageId P key d
      in case FetchBucketPage s bucket_page_id of
           None \<Rightarrow> None
         | Some bucket_page \<Rightarrow> Some (Bucket_GetValue P bucket_page key result))"

text \<open>The three loops of \<open>SplitInsert\<close> over the directory, and its loop over the slots
  of the old bucket.\<close>

definition SplitInsert_incr :: "32 word \<Rightarrow> 32 word \<Rightarrow> 32 word \<Rightarrow> directory \<Rightarrow> directory" where
  "SplitInsert_incr new_local_mask new_local_hash i d =
     (if i AND new_local_mask = new_local_hash then IncrLocalDepth d i else d)"

definition SplitInsert_redirect ::
  "page_id_t \<Rightarrow> page_id_t \<Rightarrow> 32 word \<Rightarrow> 32 word \<Rightarrow> 32 word \<Rightarrow> directory \<Rightarrow> directory" where
  "SplitInsert_redirect old_bucket_page_id new_bucket_page_id new_local_mask new_local_hash i d =
     (let page_id = GetBucketPageId d i
      in if page_id = old_bucket_page_id \<and> i AND new_local_mask \<noteq> new_local_hash
         then IncrLocalDepth (SetBucketPageId d i new_bucket_page_id) i
         else d)"

definition SplitInsert_mirror ::
  "page_id_t \<Rightarrow> page_id_t \<Rightarrow> 32 word \<Rightarrow> 32 word \<Rightarrow> directory \<Rightarrow> directory" where
  "SplitInsert_mirror old_bucket_page_id new_bucket_page_id dir_size i d =
     (let upper_page_id = GetBucketPageId d (i - dir_size);
          upper_local_depth = GetLocalDepth d (i - dir_size);
          d' = (if upper_page_id = old_bucket_page_id
                then SetBucketPageId d i new_bucket_page_id
                else SetBucketPageId d i upper_page_id)
      in SetLocalDepth d' i upper_local_depth)"

definition SplitInsert_move ::
  "('k, 'v) params \<Rightarrow> directory \<Rightarrow> page_id_t \<Rightarrow> nat \<Rightarrow>
   ('k, 'v) bucket \<times> ('k, 'v) bucket \<Rightarrow> ('k, 'v) bucket \<times> ('k, 'v) bucket" where
  "SplitInsert_move P d new_bucket_page_id i pair =
     (let old_bucket_page = fst pair;
          new_bucket_page = snd pair;
          bucket_key = KeyAt P old_bucket_page i;
          bucket_value = ValueAt P old_bucket_page i;
          bucket_page_id = KeyToPageId P bucket_key d
      in if bucket_page_id = new_bucket_page_id
         then (RemoveAt old_bucket_page i,
               snd (Bucket_Insert P new_bucket_page bucket_key bucket_value))
         else (old_bucket_page, new_bucket_page))"

definition SplitInsert ::
  "('k, 'v) params \<Rightarrow> ('k, 'v) table \<Rightarrow> 'k \<Rightarrow> 'v \<Rightarrow> (bool \<times> ('k, 'v) table) option" where
  "SplitInsert P s key val =
     (let d = dir_page s;
          old_bucket_page_index = KeyToDirectoryIndex P key d;
          old_bucket_page_id = KeyToPageId P key d;
          local_depth = GetLocalDepth d old_bucket_page_index
      in case FetchBucketPage s old_bucket_page_id of
           None \<Rightarrow> None
         | Some old_bucket_page \<Rightarrow>
             if \<not> IsFull P old_bucket_page then
               (let (ret_tmp, old_bucket_page') = Bucket_Insert P old_bucket_page key val
                in Some (ret_tmp, store_page s old_bucket_page_id old_bucket_page'))
             else
               (let (new_bucket_page_id, s1) = CreateBucketPage P s;
                    new_bucket_page = new_bucket_page P;
                    old_local_mask = GetLocalDepthMask d old_bucket_page_index;
                    new_local_mask = old_local_mask + (old_local_mask + 1);
                    new_local_hash = old_bucket_page_index AND new_local_mask;
                    dir_size = Size d;
                    d1 = fold (SplitInsert_incr new_local_mask new_local_hash)
                           (index_range 0 dir_size) d;
                    d2 = (if local_depth < GetGlobalDepth d1 then
                            fold (SplitInsert_redirect old_bucket_page_id new_bucket_page_id
                                    new_local_mask new_local_hash)
                              (index_range 0 dir_size) d1
                          else
                            (let d' = IncrGlobalDepth d1;
                                 new_dir_size = Size d'
                             in fold (SplitInsert_mirror old_bucket_page_id new_bucket_page_id
                                        dir_size)
                                  (index_range dir_size new_dir_size) d'));
                    bucket_size = Bucket_Size P;
                    (old_bucket_page1, new_bucket_page1) =
                       fold (SplitInsert_move P d2 new_bucket_page_id) [0..<bucket_size]
                         (old_bucket_page, new_bucket_page);
                    bucket_page_id = KeyToPageId P key d2;
                    (ret, old_bucket_page2, new_bucket_page2) =
                       (if bucket_page_id = old_bucket_page_id then
                          (let (r, b) = Bucket_Insert P old_bucket_page1 key val
                           in (r, b, new_bucket_page1))
                        else
                          (let (r, b) = Bucket_Insert P new_bucket_page1 key val
                           in (r, old_bucket_page1, b)))
                in Some (ret,
                     (store_page (store_page s1 old_bucket_page_id old_bucket_page2)
                        new_bucket_page_id new_bucket_page2)\<lparr>dir_page := d2\<rparr>)))"

definition Insert ::
  "('k, 'v) params \<Rightarrow> ('k, 'v) table \<Rightarrow> 'k \<Rightarrow> 'v \<Rightarrow> (bool \<times> ('k, 'v) table) option" where
  "Insert P s key val =
     (let d = dir_page s;
          bucket_page_id = KeyToPageId P key d
      in case FetchBucketPage s bucket_page_id of
           None \<Rightarrow> None
         | Some bucket_page \<Rightarrow>
             (let (ret, bucket_page') = Bucket_Insert P bucket_page key val;
                  s' = store_page s bucket_page_id bucket_page'
              in if \<not> ret \<and> IsFull P bucket_page' then SplitInsert P s' key val
                 else Some (ret, s')))"

text \<open>
  \<open>Merge\<close> computes \<open>same_mask = local_mask ^ (1 << (local_depth - 1))\<close> before it tests
  \<open>local_depth > 0\<close>; \<open>local_depth\<close> is a \<open>uint32_t\<close>, so \<open>local_depth - 1\<close> wraps around
  at \<open>0\<close>.  \<open>Merge_shift\<close> is that shift amount.
\<close>

definition Merge_shift :: "('k, 'v) params \<Rightarrow> ('k, 'v) table \<Rightarrow> 'k \<Rightarrow> 32 word" where
  "Merge_shift P s key =
     (let d = dir_page s;
          index = KeyToDirectoryIndex P key d;
          local_depth = GetLocalDepth d index
      in local_depth - 1)"

definition Merge_redirect :: "32 word \<Rightarrow> 32 word \<Rightarrow> page_id_t \<Rightarrow> 32 word \<Rightarrow> directory \<Rightarrow> directory" where
  "Merge_redirect local_mask index another_bucket_page_id i d =
     (if i AND local_mask = index AND local_mask
      then SetBucketPageId d i another_bucket_page_id else d)"

definition Merge_decr :: "32 word \<Rightarrow> 32 word \<Rightarrow> 32 word \<Rightarrow> directory \<Rightarrow> directory" where
  "Merge_decr same_mask index i d =
     (if i AND same_mask = index AND same_mask then DecrLocalDepth d i else d)"

definition Merge ::
  "('k, 'v) params \<Rightarrow> ('k, 'v) table \<Rightarrow> 'k \<Rightarrow> 'v \<Rightarrow> ('k, 'v) table option" where
  "Merge P s key val =
     (let d = dir_page s;
          index = KeyToDirectoryIndex P key d;
          bucket_page_id = KeyToPageId P key d;
          dir_size = Size d;
          local_depth = GetLocalDepth d index;
          local_mask = GetLocalDepthMask d index;
          same_mask = local_mask XOR push_bit (unat (Merge_shift P s key)) 1
      in case FetchBucketPage s bucket_page_id of
           None \<Rightarrow> None
         | Some bucket_page \<Rightarrow>
             if local_depth > 0 \<and> IsEmpty P bucket_page then
               (let another_bucket_idx = GetSplitImageIndex d index;
                    another_local_depth = GetLocalDepth d another_bucket_idx
                in if another_local_depth = local_depth then
                     (let another_bucket_page_id = GetBucketPageId d another_bucket_idx;
                          d1 = fold (Merge_redirect local_mask index another_bucket_page_id)
                                 (index_range 0 dir_size) d;
                          s1 = DeletePage s bucket_page_id;
                          d2 = fold (Merge_decr same_mask index) (index_range 0 dir_size) d1;
                          d3 = (if CanShrink d2 then DecrGlobalDepth d2 else d2)
                      in Some (s1\<lparr>dir_page := d3\<rparr>))
                   else Some s)
             else Some s)"

definition ExtraMerge_step :: "page_id_t \<Rightarrow> page_id_t \<Rightarrow> 32 word \<Rightarrow> directory \<Rightarrow> directory" where
  "ExtraMerge_step extra_bucket_page_id bucket_page_id i d =
     (let tmp_bucket_page_id = GetBucketPageId d i
      in if tmp_bucket_page_id = extra_bucket_page_id
         then DecrLocalDepth (SetBucketPageId d i bucket_page_id) i
         else if tmp_bucket_page_id = bucket_page_id then DecrLocalDepth d i
         else d)"

definition ExtraMerge ::
  "('k, 'v) params \<Rightarrow> ('k, 'v) table \<Rightarrow> 'k \<Rightarrow> 'v \<Rightarrow> (bool \<times> ('k, 'v) table) option" where
  "ExtraMerge P s key val =
     (let d = dir_page s;
          bucket_page_id = KeyToPageId P key d;
          index = KeyToDirectoryIndex P key d;
          local_depth = GetLocalDepth d index;
          dir_size = Size d
      in if local_depth > 0 then
           (let extra_bucket_idx = GetSplitImageIndex d index;
                extra_local_depth = GetLocalDepth d extra_bucket_idx;
                extra_bucket_page_id = GetBucketPageId d extra_bucket_idx
            in case FetchBucketPage s extra_bucket_page_id of
                 None \<Rightarrow> None
               | Some extra_bucket \<Rightarrow>
                   if extra_local_depth = local_depth \<and> IsEmpty P extra_bucket then
                     (let d1 = fold (ExtraMerge_step extra_bucket_page_id bucket_page_id)
                                 (index_range 0 dir_size) d;
                          s1 = DeletePage s extra_bucket_page_id;
                          d2 = (if CanShrink d1 then DecrGlobalDepth d1 else d1)
                      in Some (True, s1\<lparr>dir_page := d2\<rparr>))
                   else Some (False, s))
         else Some (False, s))"

text \<open>
  \<open>while (ExtraMerge(transaction, key, value)) {}\<close> in \<open>Remove\<close>.  Every round that
  returns \<open>true\<close> has deleted a live page, so the loop ends.
\<close>

function ExtraMerge_while ::
  "('k, 'v) params \<Rightarrow> ('k, 'v) table \<Rightarrow> 'k \<Rightarrow> 'v \<Rightarrow> ('k, 'v) table option" where
  "ExtraMerge_while P s key val =
     (case ExtraMerge P s key val of
        None \<Rightarrow> None
      | Some (occur, s') \<Rightarrow> if occur then ExtraMerge_while P s' key val else Some s')"
  by pat_completeness auto
termination
proof (relation "measure (\<lambda>(P, s, key, val). size (fmdom (pages s)))")
  show "wf (measure (\<lambda>(P :: ('k, 'v) params, s :: ('k, 'v) table, key :: 'k, val :: 'v).
    size (fmdom (pages s))))"
    by simp
next
  fix P :: "('k, 'v) params" and s :: "('k, 'v) table" and key :: 'k and val :: 'v
    and x2 :: "bool \<times> ('k, 'v) table" and occur :: bool and s' :: "('k, 'v) table"
  assume em: "ExtraMerge P s key val = Some x2" and x2: "(occur, s') = x2" and occur
  let ?extra = "GetBucketPageId (dir_page s)
    (GetSplitImageIndex (dir_page s) (KeyToDirectoryIndex P key (dir_page s)))"
  from em x2 \<open>occur\<close> obtain b where b: "fmlookup (pages s) ?extra = Some b"
    and s': "pages s' = fmdrop ?extra (pages s)"
    by (auto simp add: ExtraMerge_def Let_def FetchBucketPage_def DeletePage_def
        split: if_splits option.splits)
  from b have "?extra |\<in>| fmdom (pages s)"
    by (rule fmdomI)
  then have "0 < card (fset (fmdom (pages s)))"
    by (auto simp add: card_gt_0_iff)
  with \<open>?extra |\<in>| fmdom (pages s)\<close>
  have "size (fmdom (pages s')) < size (fmdom (pages s))"
    unfolding s' by (simp add: fmdom_drop)
  then show "((P, s', key, val), (P, s, key, val))
    \<in> measure (\<lambda>(P, s, key, val). size (fmdom (pages s)))"
    by simp
qed

declare ExtraMerge_while.simps [simp del]

definition Remove ::
  "('k, 'v) params \<Rightarrow> ('k, 'v) table \<Rightarrow> 'k \<Rightarrow> 'v \<Rightarrow> (bool \<times> ('k, 'v) table) option" where
  "Remove P s key val =
     (let d = dir_page s;
          bucket_page_id = KeyToPageId P key d
      in case FetchBucketPage s bucket_page_id of
           None \<Rightarrow> None
         | Some bucket_page \<Rightarrow>
             (let (ret, bucket_page') = Bucket_Remove P bucket_page key val;
                  s' = store_page s bucket_page_id bucket_page'
              in if ret \<and> IsEmpty P bucket_page' then
                   (case Merge P s' key val of
                      None \<Rightarrow> None
                    | Some s1 \<Rightarrow>
                        (case ExtraMerge_while P s1 key val of
                           None \<Rightarrow> None
                         | Some s2 \<Rightarrow> Some (ret, s2)))
                 else Some (ret, s')))"


section \<open>Sequences of operations\<close>

datatype ('k, 'v) operation = Insert_op 'k 'v | Remove_op 'k 'v

fun apply_operation ::
  "('k, 'v) params \<Rightarrow> ('k, 'v) table \<Rightarrow> ('k, 'v) operation \<Rightarrow> ('k, 'v) table option" where
  "apply_operation P s (Insert_op key val) = map_option snd (Insert P s key val)"
| "apply_operation P s (Remove_op key val) = map_option snd (Remove P s key val)"

fun run ::
  "('k, 'v) params \<Rightarrow> ('k, 'v) table \<Rightarrow> ('k, 'v) operation list \<Rightarrow> ('k, 'v) table option" where
  "run P s [] = Some s"
| "run P s (op # ops) =
     (case apply_operation P s op of None \<Rightarrow> None | Some s' \<Rightarrow> run P s' ops)"

section \<open>Well-formed pages and the statements of the specification\<close>

text \<open>The three arrays of a bucket page have the sizes the class declares.\<close>

definition bucket_wf :: "('k, 'v) params \<Rightarrow> ('k, 'v) bucket \<Rightarrow> bool" where
  "bucket_wf P b =
     (length (occupied b) = (BUCKET_ARRAY_SIZE P - 1) div 8 + 1 \<and>
      length (readable b) = (BUCKET_ARRAY_SIZE P - 1) div 8 + 1 \<and>
      length (array b) = BUCKET_ARRAY_SIZE P)"

text \<open>
  Slot \<open>j\<close> lies in the range a scan covers when it runs up to the first slot whose
  occupied bit is \<open>0\<close>: every slot before \<open>j\<close> is occupied.
\<close>

definition scanned :: "('k, 'v) params \<Rightarrow> ('k, 'v) bucket \<Rightarrow> nat \<Rightarrow> bool" where
  "scanned P b j = (j < BUCKET_ARRAY_SIZE P \<and> (\<forall>i<j. IsOccupied b i))"

text \<open>
  The directory after a merge, in the words of the specification: every slot that
  shares the local-mask prefix of slot \<open>i\<close> points to the sibling's page, every slot
  that shares the merged prefix has its local depth decremented, and the global
  depth is decremented when \<open>CanShrink\<close> holds.
\<close>

definition spec_Merge_directory :: "directory \<Rightarrow> 32 word \<Rightarrow> directory" where
  "spec_Merge_directory d i =
     (let local_mask = GetLocalDepthMask d i;
          same_mask = local_mask XOR push_bit (unat (GetLocalDepth d i - 1)) 1;
          sibling = GetBucketPageId d (GetSplitImageIndex d i);
          d' = d\<lparr>bucket_page_ids :=
                    (\<lambda>j. if j < Size d \<and> j AND local_mask = i AND local_mask then sibling
                         else bucket_page_ids d j),
                  local_depths :=
                    (\<lambda>j. if j < Size d \<and> j AND same_mask = i AND same_mask
                         then local_depths d j - 1 else local_depths d j)\<rparr>
      in if CanShrink d' then DecrGlobalDepth d' else d')"

text \<open>
  The directory after a reverse merge, in the words of the specification: every slot
  that points to the empty sibling \<open>extra\<close> points to the current page \<open>cur\<close>, the slots
  of both have their local depth decremented, and the global depth is decremented
  when \<open>CanShrink\<close> holds.
\<close>

definition spec_ExtraMerge_directory :: "directory \<Rightarrow> page_id_t \<Rightarrow> page_id_t \<Rightarrow> directory" where
  "spec_ExtraMerge_directory d cur extra =
     (let d' = d\<lparr>bucket_page_ids :=
                    (\<lambda>j. if j < Size d \<and> bucket_page_ids d j = extra then cur
                         else bucket_page_ids d j),
                  local_depths :=
                    (\<lambda>j. if j < Size d \<and> (bucket_page_ids d j = extra \<or> bucket_page_ids d j = cur)
                         then local_depths d j - 1 else local_depths d j)\<rparr>
      in if CanShrink d' then DecrGlobalDepth d' else d')"

section \<open>Invariants\<close>

text \<open>The live entries of a page, as a set.\<close>

definition entries :: "('k, 'v) params \<Rightarrow> ('k, 'v) bucket \<Rightarrow> ('k \<times> 'v) set" where
  "entries P b = set (GetAllItem P b)"

text \<open>
  The invariant of a bucket page: a readable slot is occupied; the occupied slots
  form a prefix of the page (a slot is taken only at or before the first slot never
  used); no pair is live twice; and the bits of the readable bitmap beyond the last
  slot are zero.
\<close>

definition bucket_inv :: "('k, 'v) params \<Rightarrow> ('k, 'v) bucket \<Rightarrow> bool" where
  "bucket_inv P b =
     ((\<forall>i<BUCKET_ARRAY_SIZE P. IsReadable b i \<longrightarrow> IsOccupied b i) \<and>
      (\<forall>i<BUCKET_ARRAY_SIZE P. IsOccupied b i \<longrightarrow> (\<forall>j<i. IsOccupied b j)) \<and>
      (\<forall>i<BUCKET_ARRAY_SIZE P. \<forall>j<BUCKET_ARRAY_SIZE P.
         IsReadable b i \<and> IsReadable b j \<and> array b ! i = array b ! j \<longrightarrow> i = j) \<and>
      (\<forall>i. BUCKET_ARRAY_SIZE P \<le> i \<and> i < 8 * ((BUCKET_ARRAY_SIZE P - 1) div 8 + 1) \<longrightarrow>
         \<not> IsReadable b i))"

text \<open>
  The invariant of the directory that the operations maintain.  The global depth is
  below 32, so that \<open>1 << global_depth\<close> is the size of the directory; no local depth
  of a slot in use exceeds the global depth; two slots in use point to the same page
  exactly when they agree on the low \<open>local_depth\<close> bits; and slots that point to the
  same page have the same local depth.
\<close>

definition dir_inv :: "directory \<Rightarrow> bool" where
  "dir_inv d =
     (unat (global_depth d) < 32 \<and>
      (\<forall>i<Size d. unat (local_depths d i) \<le> unat (global_depth d)) \<and>
      (\<forall>i<Size d. \<forall>j<Size d.
         (bucket_page_ids d i = bucket_page_ids d j) =
         (take_bit (unat (local_depths d i)) i = take_bit (unat (local_depths d i)) j)) \<and>
      (\<forall>i<Size d. \<forall>j<Size d.
         bucket_page_ids d i = bucket_page_ids d j \<longrightarrow> local_depths d i = local_depths d j))"

text \<open>
  The invariant of the table: the directory invariant; every slot in use points to a
  live page that is well formed, satisfies the page invariant and holds only keys
  whose hash agrees with the slot on the low \<open>local_depth\<close> bits; and every live page
  has an id below the next id of the pool.
\<close>

definition table_inv :: "('k, 'v) params \<Rightarrow> ('k, 'v) table \<Rightarrow> bool" where
  "table_inv P s =
     (dir_inv (dir_page s) \<and>
      (\<forall>i<Size (dir_page s).
         \<exists>b. fmlookup (pages s) (bucket_page_ids (dir_page s) i) = Some b \<and>
             bucket_wf P b \<and> bucket_inv P b \<and>
             (\<forall>x\<in>entries P b.
                take_bit (unat (local_depths (dir_page s) i)) (Hash P (fst x)) =
                take_bit (unat (local_depths (dir_page s) i)) i)) \<and>
      (\<forall>p. p |\<in>| fmdom (pages s) \<longrightarrow> p < next_page_id s))"

text \<open>The pair \<open>(key, val)\<close> is live in the page the key is routed to.\<close>

definition stored :: "('k, 'v) params \<Rightarrow> ('k, 'v) table \<Rightarrow> 'k \<Rightarrow> 'v \<Rightarrow> bool" where
  "stored P s key val =
     (case FetchBucketPage s (KeyToPageId P key (dir_page s)) of
        None \<Rightarrow> False
      | Some b \<Rightarrow> (key, val) \<in> entries P b)"

text \<open>
  Modelled from the spec: \<open>HashTableDirectoryPage::VerifyIntegrity\<close> (not part of the
  sources), which asserts the invariants of the directory: its size is
  \<open>2^global_depth\<close>; no local depth exceeds the global depth; two slots with the same
  local depth and the same masked index point to the same page; and every page is
  pointed to by exactly \<open>2^(global_depth - local_depth)\<close> slots.
\<close>

definition VerifyIntegrity :: "directory \<Rightarrow> bool" where
  "VerifyIntegrity d =
     (let slots = index_range 0 (Size d)
      in unat (Size d) = 2 ^ unat (GetGlobalDepth d) \<and>
         (\<forall>i\<in>set slots. GetLocalDepth d i \<le> GetGlobalDepth d) \<and>
         (\<forall>i\<in>set slots. \<forall>j\<in>set slots.
            i AND GetLocalDepthMask d i = j AND GetLocalDepthMask d j \<and>
            GetLocalDepth d i = GetLocalDepth d j \<longrightarrow>
            GetBucketPageId d i = GetBucketPageId d j) \<and>
         (\<forall>i\<in>set slots.
            length (filter (\<lambda>j. GetBucketPageId d j = GetBucketPageId d i) slots) =
            2 ^ (unat (GetGlobalDepth d) - unat (GetLocalDepth d i))))"

text \<open>
  The global depth stays within \<open>m\<close> in every state a sequence of operations goes
  through (\<open>global_depth \<in> [0, MAX_DEPTH]\<close> in the data model of the specification).
\<close>

fun depths_within ::
  "nat \<Rightarrow> ('k, 'v) params \<Rightarrow> ('k, 'v) table \<Rightarrow> ('k, 'v) operation list \<Rightarrow> bool" where
  "depths_within m P s [] = (unat (global_depth (dir_page s)) \<le> m)"
| "depths_within m P s (op # ops) =
     (unat (global_depth (dir_page s)) \<le> m \<and>
      (case apply_operation P s op of None \<Rightarrow> True | Some s' \<Rightarrow> depths_within m P s' ops))"

section \<open>Example parameters and states\<close>

text \<open>
  The instantiation \<open>ExtendibleHashTable<int, int, IntComparator>\<close>, for which
  \<open>BUCKET_ARRAY_SIZE\<close> is \<open>4 * 4096 / (4 * 8 + 1) = 496\<close>.  The hash function stands in for
  the one of the hash utilities, which are not part of the sources.
\<close>

definition int_params :: "(int, int) params" where
  "int_params =
     \<lparr>BUCKET_ARRAY_SIZE = 496, hash_fn = (\<lambda>k. word_of_int k), key_init = 0, value_init = 0\<rparr>"

text \<open>A page of that table in which exactly the slots \<open>0, ..., 7\<close> hold live entries.\<close>

definition eight_live :: "(int, int) bucket" where
  "eight_live =
     \<lparr>occupied = 0xFF # replicate 61 0,
      readable = 0xFF # replicate 61 0,
      array = map (\<lambda>i. (int i, int i)) [0..<8] @ replicate 488 (0, 0)\<rparr>"

text \<open>A small page size, not a multiple of 8, and a full page of that size.\<close>

definition ten_params :: "(int, int) params" where
  "ten_params =
     \<lparr>BUCKET_ARRAY_SIZE = 10, hash_fn = (\<lambda>k. word_of_int k), key_init = 0, value_init = 0\<rparr>"

definition ten_full :: "(int, int) bucket" where
  "ten_full =
     \<lparr>occupied = [0xFF, 0x03],
      readable = [0xFF, 0x03],
      array = map (\<lambda>i. (int i, int i)) [0..<10]\<rparr>"

text \<open>
  A page of four slots with a tombstone in slot 1 and slot 3 never used, and a full
  page of four slots.
\<close>

definition four_params :: "(int, int) params" where
  "four_params =
     \<lparr>BUCKET_ARRAY_SIZE = 4, hash_fn = (\<lambda>k. word_of_int k), key_init = 0, value_init = 0\<rparr>"

definition four_tombstone :: "(int, int) bucket" where
  "four_tombstone =
     \<lparr>occupied = [0x07], readable = [0x05], array = [(1, 1), (2, 2), (3, 3), (0, 0)]\<rparr>"

definition four_full :: "(int, int) bucket" where
  "four_full =
     \<lparr>occupied = [0x0F], readable = [0x0F], array = [(1, 1), (2, 2), (3, 3), (4, 4)]\<rparr>"

text \<open>A table whose pages have two slots.\<close>

definition two_params :: "(int, int) params" where
  "two_params =
     \<lparr>BUCKET_ARRAY_SIZE = 2, hash_fn = (\<lambda>k. word_of_int k), key_init = 0, value_init = 0\<rparr>"

section \<open>Bits of the bitmaps\<close>


lemma char_test_bit: "n < 8 \<Longrightarrow> (char_to_int c AND 2 ^ n \<noteq> 0) = bit c n"
  by (simp add: char_to_int_def and_exp_eq_0_iff_not_bit bit_word_scast_iff)

lemma char_set_bit:
  "n < 8 \<Longrightarrow> bit (int_to_char (char_to_int c OR 2 ^ n)) m = (m < 8 \<and> (m = n \<or> bit c m))"
  by (auto simp add: int_to_char_def char_to_int_def bit_word_ucast_iff bit_or_iff
      bit_word_scast_iff bit_exp_iff dest: bit_imp_le_length)

lemma char_clear_bit:
  "n < 8 \<Longrightarrow> bit (int_to_char (char_to_int c AND NOT (2 ^ n))) m = (m \<noteq> n \<and> bit c m)"
  by (auto simp add: int_to_char_def char_to_int_def bit_word_ucast_iff bit_and_iff bit_not_iff
      bit_word_scast_iff bit_exp_iff dest: bit_imp_le_length)

lemma IsReadable_bit: "IsReadable b i = bit (readable b ! (i div 8)) (i mod 8)"
  using char_test_bit [of "i mod 8"] by (simp add: IsReadable_def Let_def)

lemma IsOccupied_bit: "IsOccupied b i = bit (occupied b ! (i div 8)) (i mod 8)"
  using char_test_bit [of "i mod 8"] by (simp add: IsOccupied_def Let_def)

lemma char_to_int_eq_iff: "(char_to_int c = char_to_int d) = (c = d)"
proof
  assume h: "char_to_int c = char_to_int d"
  show "c = d"
  proof (rule bit_word_eqI)
    fix n assume "n < LENGTH(8)"
    with h have "bit (char_to_int c) n = bit (char_to_int d) n" by simp
    with \<open>n < LENGTH(8)\<close> show "bit c n = bit d n" 
      by (simp add: char_to_int_def bit_word_scast_iff)
  qed
qed simp

lemma int_to_char_ff: "int_to_char 0xff = 0xff"
  by (simp add: int_to_char_def)

lemma int_to_char_0: "int_to_char 0 = 0"
  by (simp add: int_to_char_def)

lemma int_to_char_mask: "rest < 8 \<Longrightarrow> int_to_char (2 ^ rest - 1) = mask rest"
proof -
  assume "rest < 8"
  then consider "rest = 0" | "rest = 1" | "rest = 2" | "rest = 3"
    | "rest = 4" | "rest = 5" | "rest = 6" | "rest = 7"
    by linarith
  then show ?thesis
    by cases (simp_all add: int_to_char_def mask_eq_decr_exp)
qed

lemma char_ff_iff: "(c = (0xff :: 8 word)) = (\<forall>n<8. bit c n)"
proof -
  have "(0xff :: 8 word) = mask 8" by (simp add: mask_eq_decr_exp)
  then show ?thesis
    by (auto simp add: bit_eq_iff bit_mask_iff dest: bit_imp_le_length)
qed

lemma char_mask_iff: "(c = (mask r :: 8 word)) = (\<forall>n<8. bit c n = (n < r))"
  by (auto simp add: bit_eq_iff bit_mask_iff dest: bit_imp_le_length)

lemma char_0_iff: "(c = (0 :: 8 word)) = (\<forall>n<8. \<not> bit c n)"
  by (auto simp add: bit_eq_iff dest: bit_imp_le_length)

lemma slot_eq_iff: "((j::nat) = i) = (j div 8 = i div 8 \<and> j mod 8 = i mod 8)"
  by (metis div_mult_mod_eq)

lemma IsReadable_SetReadable:
  "i div 8 < length (readable b) \<Longrightarrow> IsReadable (SetReadable b i) j = (j = i \<or> IsReadable b j)"
  by (auto simp add: IsReadable_bit SetReadable_def Let_def nth_list_update char_set_bit slot_eq_iff [of j i])

lemma IsReadable_SetUnreadable:
  "i div 8 < length (readable b) \<Longrightarrow> IsReadable (SetUnreadable b i) j = (j \<noteq> i \<and> IsReadable b j)"
  by (auto simp add: IsReadable_bit SetUnreadable_def Let_def nth_list_update char_clear_bit slot_eq_iff [of j i])

lemma IsOccupied_SetOccupied:
  "i div 8 < length (occupied b) \<Longrightarrow> IsOccupied (SetOccupied b i) j = (j = i \<or> IsOccupied b j)"
  by (auto simp add: IsOccupied_bit SetOccupied_def Let_def nth_list_update char_set_bit slot_eq_iff [of j i])

lemma IsFull_loop_iff:
  "IsFull_loop n i b = (\<forall>j. i \<le> j \<and> j < n \<longrightarrow> readable b ! j = 0xff)"
proof (induction n i b rule: IsFull_loop.induct)
  case (1 n i b)
  show ?case
  proof (cases "i < n")
    case True
    show ?thesis
    proof (cases "readable b ! i = 0xff")
      case True
      with \<open>i < n\<close> 1 have "IsFull_loop n i b = (\<forall>j. i + 1 \<le> j \<and> j < n \<longrightarrow> readable b ! j = 0xff)"
        by (subst IsFull_loop.simps) (simp add: char_to_int_eq_iff int_to_char_ff)
      also have "\<dots> = (\<forall>j. i \<le> j \<and> j < n \<longrightarrow> readable b ! j = 0xff)"
        using True by (metis Suc_eq_plus1 Suc_leI le_eq_less_or_eq le_simps(3))
      finally show ?thesis .
    next
      case False
      with \<open>i < n\<close> show ?thesis
        by (subst IsFull_loop.simps) (auto simp add: char_to_int_eq_iff int_to_char_ff)
    qed
  next
    case False
    then show ?thesis
      by (subst IsFull_loop.simps) auto
  qed
qed

lemma IsFull_bytes:
  "IsFull P b =
     ((\<forall>j < BUCKET_ARRAY_SIZE P div 8. readable b ! j = 0xff) \<and>
      (BUCKET_ARRAY_SIZE P mod 8 \<noteq> 0 \<longrightarrow>
         readable b ! ((BUCKET_ARRAY_SIZE P - 1) div 8) = mask (BUCKET_ARRAY_SIZE P mod 8)))"
proof -
  have r: "BUCKET_ARRAY_SIZE P - BUCKET_ARRAY_SIZE P div 8 * 8 = BUCKET_ARRAY_SIZE P mod 8"
    by (simp add: minus_div_mult_eq_mod)
  show ?thesis
    by (auto simp add: IsFull_def Let_def IsFull_loop_iff r char_to_int_eq_iff int_to_char_mask)
qed

lemma IsFull_all_readable:
  assumes N: "0 < BUCKET_ARRAY_SIZE P"
    and pad: "\<forall>i. BUCKET_ARRAY_SIZE P \<le> i \<and> i < 8 * ((BUCKET_ARRAY_SIZE P - 1) div 8 + 1) \<longrightarrow> \<not> IsReadable b i"
  shows "IsFull P b = (\<forall>i<BUCKET_ARRAY_SIZE P. IsReadable b i)"
proof -
  define n where "n = BUCKET_ARRAY_SIZE P"
  define q where "q = n div 8"
  define r where "r = n mod 8"
  have n: "n = 8 * q + r" and r8: "r < 8"
    by (simp_all add: q_def r_def)
  have bytes: "IsFull P b =
      ((\<forall>j<q. readable b ! j = 0xff) \<and> (r \<noteq> 0 \<longrightarrow> readable b ! ((n - 1) div 8) = mask r))"
    unfolding q_def r_def n_def by (rule IsFull_bytes)
  have pad': "\<not> IsReadable b i" if "n \<le> i" and "i < 8 * ((n - 1) div 8 + 1)" for i
    using pad that unfolding n_def by blast
  have last: "(n - 1) div 8 = q" if "r \<noteq> 0"
  proof -
    from that obtain r' where r': "r = Suc r'"
      by (cases r) auto
    with n have "n - 1 = r' + q * 8"
      by simp
    moreover have "r' < 8"
      using r8 r' by simp
    ultimately show ?thesis
      by simp
  qed
  have full: "(\<forall>j<q. readable b ! j = 0xff) = (\<forall>i<8 * q. IsReadable b i)"
  proof
    assume h: "\<forall>j<q. readable b ! j = 0xff"
    show "\<forall>i<8 * q. IsReadable b i"
    proof (intro allI impI)
      fix i assume "i < 8 * q"
      then have "i div 8 < q" by simp
      with h have "readable b ! (i div 8) = 0xff" by simp
      then show "IsReadable b i" by (simp add: IsReadable_bit char_ff_iff)
    qed
  next
    assume h: "\<forall>i<8 * q. IsReadable b i"
    show "\<forall>j<q. readable b ! j = 0xff"
    proof (intro allI impI)
      fix j assume j: "j < q"
      have "bit (readable b ! j) m" if "m < 8" for m
      proof -
        have "8 * j + m < 8 * q" using j that by simp
        with h have "IsReadable b (8 * j + m)" by simp
        then show ?thesis using that by (simp add: IsReadable_bit)
      qed
      then show "readable b ! j = 0xff" by (simp add: char_ff_iff)
    qed
  qed
  have tail: "(readable b ! q = mask r) = (\<forall>i. 8 * q \<le> i \<and> i < n \<longrightarrow> IsReadable b i)"
    if "r \<noteq> 0"
  proof
    assume h: "readable b ! q = mask r"
    show "\<forall>i. 8 * q \<le> i \<and> i < n \<longrightarrow> IsReadable b i"
    proof (intro allI impI)
      fix i assume i: "8 * q \<le> i \<and> i < n"
      then obtain m where m: "i = m + q * 8"
        by (metis le_iff_add add.commute mult.commute)
      with i n have "m < r"
        by simp
      with m r8 have "i div 8 = q" and "i mod 8 < r"
        by simp_all
      with h show "IsReadable b i" using r8 by (simp add: IsReadable_bit bit_mask_iff)
    qed
  next
    assume h: "\<forall>i. 8 * q \<le> i \<and> i < n \<longrightarrow> IsReadable b i"
    have "bit (readable b ! q) m = (m < r)" if m: "m < 8" for m
    proof (cases "m < r")
      case True
      with n have "8 * q \<le> 8 * q + m \<and> 8 * q + m < n" by simp
      with h have "IsReadable b (8 * q + m)" by blast
      with m True show ?thesis by (simp add: IsReadable_bit)
    next
      case False
      then have "n \<le> 8 * q + m" using n by simp
      moreover have "8 * q + m < 8 * ((n - 1) div 8 + 1)"
        using m last [OF \<open>r \<noteq> 0\<close>] by simp
      ultimately have "\<not> IsReadable b (8 * q + m)" by (rule pad')
      with m False show ?thesis by (simp add: IsReadable_bit)
    qed
    then show "readable b ! q = mask r" by (simp add: char_mask_iff)
  qed
  have all_split: "(\<forall>i<n. IsReadable b i) =
      ((\<forall>i<8 * q. IsReadable b i) \<and> (\<forall>i. 8 * q \<le> i \<and> i < n \<longrightarrow> IsReadable b i))"
  proof (intro iffI conjI allI impI)
    fix i assume "\<forall>i<n. IsReadable b i" and "i < 8 * q"
    then show "IsReadable b i" using n by simp
  next
    fix i assume "\<forall>i<n. IsReadable b i" and "8 * q \<le> i \<and> i < n"
    then show "IsReadable b i" by simp
  next
    fix i
    assume h: "(\<forall>i<8 * q. IsReadable b i) \<and> (\<forall>i. 8 * q \<le> i \<and> i < n \<longrightarrow> IsReadable b i)"
      and "i < n"
    show "IsReadable b i"
    proof (cases "i < 8 * q")
      case True
      with h show ?thesis by blast
    next
      case False
      then have "8 * q \<le> i \<and> i < n" using \<open>i < n\<close> by simp
      with h show ?thesis by blast
    qed
  qed
  have "IsFull P b = (\<forall>i<n. IsReadable b i)"
  proof (cases "r = 0")
    case True
    then have "n = 8 * q" using n by simp
    with True bytes full show ?thesis by simp
  next
    case False
    have "IsFull P b = ((\<forall>j<q. readable b ! j = 0xff) \<and> readable b ! q = mask r)"
      using bytes False last [OF False] by simp
    also have "\<dots> = ((\<forall>i<8 * q. IsReadable b i) \<and>
        (\<forall>i. 8 * q \<le> i \<and> i < n \<longrightarrow> IsReadable b i))"
      using full tail [OF False] by simp
    also have "\<dots> = (\<forall>i<n. IsReadable b i)"
      by (rule all_split [symmetric])
    finally show ?thesis .
  qed
  then show ?thesis
    by (simp only: n_def)
qed

section \<open>Claims about the bucket page\<close>

text \<open>
  C8.  On a page whose readable bitmap has no bit set beyond slot
  \<open>BUCKET_ARRAY_SIZE - 1\<close>, \<open>IsFull\<close> returns true exactly when every readable bit of
  the slots \<open>0, ..., BUCKET_ARRAY_SIZE - 1\<close> is set; and that is the case exactly when
  every whole byte of the bitmap is \<open>0xFF\<close> and, for a size that is not a multiple of
  8, the last byte is \<open>(1 << rest) - 1\<close> with \<open>rest = BUCKET_ARRAY_SIZE mod 8\<close>.
\<close>

theorem IsFull_iff_all_readable:
  assumes "0 < BUCKET_ARRAY_SIZE P"
    and "length (readable b) = (BUCKET_ARRAY_SIZE P - 1) div 8 + 1"
    and "\<forall>i. BUCKET_ARRAY_SIZE P \<le> i \<and> i < 8 * length (readable b) \<longrightarrow> \<not> IsReadable b i"
  shows "IsFull P b = (\<forall>i<BUCKET_ARRAY_SIZE P. IsReadable b i) \<and>
         IsFull P b =
           ((\<forall>j<BUCKET_ARRAY_SIZE P div 8. readable b ! j = 0xFF) \<and>
            (BUCKET_ARRAY_SIZE P mod 8 \<noteq> 0 \<longrightarrow>
               readable b ! ((BUCKET_ARRAY_SIZE P - 1) div 8) =
                 2 ^ (BUCKET_ARRAY_SIZE P mod 8) - 1))"
proof
  show "IsFull P b = (\<forall>i<BUCKET_ARRAY_SIZE P. IsReadable b i)"
    using assms by (simp add: IsFull_all_readable)
  show "IsFull P b =
           ((\<forall>j<BUCKET_ARRAY_SIZE P div 8. readable b ! j = 0xFF) \<and>
            (BUCKET_ARRAY_SIZE P mod 8 \<noteq> 0 \<longrightarrow>
               readable b ! ((BUCKET_ARRAY_SIZE P - 1) div 8) =
                 2 ^ (BUCKET_ARRAY_SIZE P mod 8) - 1))"
    by (simp add: IsFull_bytes mask_eq_decr_exp)
qed

theorem IsFull_iff_all_readable_witness:
  "IsFull ten_params ten_full \<and> IsReadable ten_full 9 \<and> readable ten_full ! 1 = 2 ^ 2 - 1"
proof -
  have pad: "\<forall>i. BUCKET_ARRAY_SIZE ten_params \<le> i \<and> i < 8 * length (readable ten_full)
      \<longrightarrow> \<not> IsReadable ten_full i"
  proof (intro allI impI)
    fix i assume "BUCKET_ARRAY_SIZE ten_params \<le> i \<and> i < 8 * length (readable ten_full)"
    then have "8 \<le> i" and i: "10 \<le> i" "i < 16"
      by (simp_all add: ten_params_def ten_full_def)
    then obtain m where m: "i = m + 1 * 8"
      by (metis le_iff_add add.commute mult_1)
    with i have "2 \<le> m" "m < 8"
      by simp_all
    with m have "i div 8 = 1" and "2 \<le> i mod 8"
      by simp_all
    moreover have m3: "(0x03 :: 8 word) = mask 2"
      by (simp add: mask_eq_decr_exp)
    have "\<not> bit (0x03 :: 8 word) (i mod 8)"
      unfolding m3 bit_mask_iff using \<open>2 \<le> i mod 8\<close> by simp
    ultimately show "\<not> IsReadable ten_full i"
      by (simp add: IsReadable_bit ten_full_def)
  qed
  have full: "IsFull ten_params ten_full"
    by (simp add: IsFull_bytes ten_params_def ten_full_def mask_eq_decr_exp less_Suc_eq)
  have "0 < BUCKET_ARRAY_SIZE ten_params"
    and "length (readable ten_full) = (BUCKET_ARRAY_SIZE ten_params - 1) div 8 + 1"
    by (simp_all add: ten_params_def ten_full_def)
  from IsFull_iff_all_readable [OF this pad] full
  have "\<forall>i<BUCKET_ARRAY_SIZE ten_params. IsReadable ten_full i"
    and "BUCKET_ARRAY_SIZE ten_params mod 8 \<noteq> 0 \<longrightarrow>
      readable ten_full ! ((BUCKET_ARRAY_SIZE ten_params - 1) div 8)
        = 2 ^ (BUCKET_ARRAY_SIZE ten_params mod 8) - 1"
    by simp_all
  then have "IsReadable ten_full 9" and "readable ten_full ! 1 = 2 ^ 2 - 1"
    by (simp_all add: ten_params_def)
  with full show ?thesis by simp
qed

text \<open>
  C9.  \<open>NumReadable\<close> is claimed to return the number of slots whose readable bit is
  set.  On the page \<open>eight_live\<close> exactly the slots \<open>0, ..., 7\<close> are readable, the first
  byte of the bitmap is \<open>0xFF\<close>, its promotion to \<open>int\<close> is \<open>-1\<close>, and the loop counts
  the 32 bits of \<open>-1\<close>: \<open>NumReadable\<close> returns 32, not 8.
\<close>

lemma NumReadable_while_0: "NumReadable_while 0 cnt = cnt"
  by (subst NumReadable_while.simps) simp

lemma NumReadable_loop_zero:
  "\<forall>j. i \<le> j \<and> j < n \<longrightarrow> readable b ! j = 0 \<Longrightarrow> NumReadable_loop n i b cnt = cnt"
proof (induction n i b cnt rule: NumReadable_loop.induct)
  case (1 n i b cnt)
  show ?case
  proof (cases "i < n")
    case True
    with 1 show ?thesis
      by (subst NumReadable_loop.simps) (simp add: char_to_int_def NumReadable_while_0)
  next
    case False
    then show ?thesis by (subst NumReadable_loop.simps) simp
  qed
qed

lemma NumReadable_eight_live: "NumReadable int_params eight_live = 32"
proof -
  have z: "\<forall>j. 1 \<le> j \<and> j < 62 \<longrightarrow> readable eight_live ! j = 0"
    by (auto simp add: eight_live_def nth_Cons')
  have "NumReadable int_params eight_live =
      NumReadable_loop 62 1 eight_live (NumReadable_while (char_to_int 0xff) 0)"
    by (subst NumReadable_def, simp add: int_params_def Let_def, subst NumReadable_loop.simps)
      (simp add: eight_live_def)
  also have "\<dots> = NumReadable_while (char_to_int 0xff) 0"
    using z by (rule NumReadable_loop_zero)
  also have "\<dots> = 32"
    by (simp add: NumReadable_while.simps char_to_int_def)
  finally show ?thesis .
qed

lemma readable_eight_live:
  "card {i. i < BUCKET_ARRAY_SIZE int_params \<and> IsReadable eight_live i} = 8"
proof -
  have "IsReadable eight_live i = (i < 8)" if "i < 496" for i
  proof (cases "i < 8")
    case True
    then have "i div 8 = 0" by simp
    moreover have "bit (0xff :: 8 word) i"
      using True char_ff_iff [of "0xff"] by simp
    ultimately show ?thesis using True by (simp add: IsReadable_bit eight_live_def)
  next
    case False
    with that have "0 < i div 8" "i div 8 < 62" by auto
    with False show ?thesis by (simp add: IsReadable_bit eight_live_def nth_Cons')
  qed
  then have "{i. i < BUCKET_ARRAY_SIZE int_params \<and> IsReadable eight_live i} = {..<8}"
    by (auto simp add: int_params_def)
  then show ?thesis by simp
qed

theorem NumReadable_overcounts:
  "card {i. i < BUCKET_ARRAY_SIZE int_params \<and> IsReadable eight_live i} = 8 \<and>
   NumReadable int_params eight_live = 32"
  using readable_eight_live NumReadable_eight_live by simp

section \<open>Loops over the directory and the slot scan of Insert\<close>


lemma set_index_range: "set (index_range lo hi) = {i. lo \<le> i \<and> i < hi}"
proof (intro set_eqI iffI)
  fix x assume "x \<in> set (index_range lo hi)"
  then obtain k where k: "x = of_nat k" "unat lo \<le> k" "k < unat hi"
    by (auto simp add: index_range_def)
  have "k < 2 ^ LENGTH(32)"
    using k(3) unsigned_less [of hi, where ?'a = nat] by simp
  then have "unat x = k"
    using k(1) by (simp add: unat_of_nat)
  with k show "x \<in> {i. lo \<le> i \<and> i < hi}"
    by (simp add: word_le_nat_alt word_less_nat_alt)
next
  fix x assume "x \<in> {i. lo \<le> i \<and> i < hi}"
  then have "unat lo \<le> unat x" "unat x < unat hi"
    by (simp_all add: word_le_nat_alt word_less_nat_alt)
  then have "unat x \<in> set [unat lo..<unat hi]"
    by simp
  then have "of_nat (unat x) \<in> (of_nat :: nat \<Rightarrow> 32 word) ` set [unat lo..<unat hi]"
    by (rule imageI)
  then show "x \<in> set (index_range lo hi)"
    by (simp add: index_range_def)
qed

lemma distinct_index_range: "distinct (index_range lo hi)"
proof -
  have "inj_on (of_nat :: nat \<Rightarrow> 32 word) (set [unat lo..<unat hi])"
  proof (rule inj_onI)
    fix x y assume x: "x \<in> set [unat lo..<unat hi]" and y: "y \<in> set [unat lo..<unat hi]"
      and e: "(of_nat x :: 32 word) = of_nat y"
    have "x < unat hi" "y < unat hi"
      using x y by simp_all
    moreover have "unat hi < 2 ^ LENGTH(32)"
      by (rule unsigned_less)
    ultimately have "x < 2 ^ LENGTH(32)" "y < 2 ^ LENGTH(32)"
      by linarith+
    then have "unat (of_nat x :: 32 word) = x \<and> unat (of_nat y :: 32 word) = y"
      unfolding unat_of_nat by (intro conjI mod_less)
    then have ux: "unat (of_nat x :: 32 word) = x" and uy: "unat (of_nat y :: 32 word) = y"
      by blast+
    from e have "unat (of_nat x :: 32 word) = unat (of_nat y :: 32 word)"
      by (rule arg_cong)
    then show "x = y"
      unfolding ux uy .
  qed
  then show ?thesis
    by (simp add: index_range_def distinct_map)
qed

lemma fold_Merge_redirect:
  "fold (Merge_redirect lm idx a) xs d =
     d\<lparr>bucket_page_ids := (\<lambda>j. if j \<in> set xs \<and> j AND lm = idx AND lm then a
                                else bucket_page_ids d j)\<rparr>"
proof (induction xs arbitrary: d)
  case Nil
  show ?case by simp
next
  case (Cons x xs)
  then show ?case
    by (auto simp add: Merge_redirect_def SetBucketPageId_def fun_eq_iff)
qed

lemma fold_Merge_decr:
  "distinct xs \<Longrightarrow> fold (Merge_decr sm idx) xs d =
     d\<lparr>local_depths := (\<lambda>j. if j \<in> set xs \<and> j AND sm = idx AND sm then local_depths d j - 1
                                else local_depths d j)\<rparr>"
proof (induction xs arbitrary: d)
  case Nil
  show ?case by simp
next
  case (Cons x xs)
  then show ?case
    by (auto simp add: Merge_decr_def DecrLocalDepth_def fun_eq_iff)
qed

lemma fold_ExtraMerge_step:
  "distinct xs \<Longrightarrow> fold (ExtraMerge_step e c) xs d =
     d\<lparr>bucket_page_ids := (\<lambda>j. if j \<in> set xs \<and> bucket_page_ids d j = e then c
                                else bucket_page_ids d j),
       local_depths := (\<lambda>j. if j \<in> set xs \<and> (bucket_page_ids d j = e \<or> bucket_page_ids d j = c)
                              then local_depths d j - 1 else local_depths d j)\<rparr>"
proof (induction xs arbitrary: d)
  case Nil
  show ?case by simp
next
  case (Cons x xs)
  then show ?case
    by (auto simp add: ExtraMerge_step_def DecrLocalDepth_def SetBucketPageId_def
        GetBucketPageId_def Let_def fun_eq_iff)
qed

lemma Insert_loop_None_iff:
  "(Insert_loop n i b k v ii = None) =
     (\<exists>j. i \<le> j \<and> j < n \<and> IsReadable b j \<and> array b ! j = (k, v) \<and>
          (\<forall>s. i \<le> s \<and> s < j \<longrightarrow> IsReadable b s \<or> IsOccupied b s))"
proof (induction n i b k v ii rule: Insert_loop.induct)
  case (1 n i b k v ii)
  let ?dup = "\<lambda>j. IsReadable b j \<and> array b ! j = (k, v)"
  let ?R = "\<lambda>i. \<exists>j. i \<le> j \<and> j < n \<and> ?dup j \<and>
          (\<forall>s. i \<le> s \<and> s < j \<longrightarrow> IsReadable b s \<or> IsOccupied b s)"
  show ?case
  proof (cases "i < n")
    case False
    then show ?thesis by (subst Insert_loop.simps) auto
  next
    case True
    have step: "?R i = (?R (i + 1) \<and> (IsReadable b i \<or> IsOccupied b i))" if "\<not> ?dup i"
    proof
      assume "?R i"
      then obtain j where j: "i \<le> j" "j < n" "?dup j"
        "\<forall>s. i \<le> s \<and> s < j \<longrightarrow> IsReadable b s \<or> IsOccupied b s" by blast
      with that have "i \<noteq> j" by blast
      with j(1) have "i + 1 \<le> j" "i < j" by simp_all
      with j show "?R (i + 1) \<and> (IsReadable b i \<or> IsOccupied b i)"
        by (intro conjI exI [where x = j]) auto
    next
      assume h: "?R (i + 1) \<and> (IsReadable b i \<or> IsOccupied b i)"
      then obtain j where j: "i + 1 \<le> j" "j < n" "?dup j"
        "\<forall>s. i + 1 \<le> s \<and> s < j \<longrightarrow> IsReadable b s \<or> IsOccupied b s" by blast
      have "\<forall>s. i \<le> s \<and> s < j \<longrightarrow> IsReadable b s \<or> IsOccupied b s"
      proof (intro allI impI)
        fix s assume s: "i \<le> s \<and> s < j"
        show "IsReadable b s \<or> IsOccupied b s"
        proof (cases "s = i")
          case True with h show ?thesis by blast
        next
          case False with s j(4) show ?thesis by simp
        qed
      qed
      with j show "?R i" by (intro exI [where x = j]) simp
    qed
    show ?thesis
    proof (cases "?dup i")
      case True
      with \<open>i < n\<close> have "Insert_loop n i b k v ii = None"
        by (subst Insert_loop.simps) simp
      moreover from True \<open>i < n\<close> have "?R i"
        by (intro exI [where x = i]) auto
      ultimately show ?thesis by simp
    next
      case nd: False
      then have nd': "\<not> (IsReadable b i \<and> fst (array b ! i) = k \<and> snd (array b ! i) = v)"
        by (auto simp add: prod_eq_iff)
      show ?thesis
      proof (cases "IsReadable b i")
        case True
        with nd' \<open>i < n\<close> have "Insert_loop n i b k v ii = Insert_loop n (i + 1) b k v ii"
          by (subst Insert_loop.simps) auto
        also have "(\<dots> = None) = ?R (i + 1)"
          using "1.IH"(2) True nd' \<open>i < n\<close> by simp
        finally show ?thesis using step [OF nd] True by simp
      next
        case nr: False
        show ?thesis
        proof (cases "IsOccupied b i")
          case False
          with nr \<open>i < n\<close> have "Insert_loop n i b k v ii \<noteq> None"
            by (subst Insert_loop.simps) (simp add: Let_def)
          moreover have "\<not> ?R i"
            using step [OF nd] nr False by blast
          ultimately show ?thesis by blast
        next
          case True
          with nr \<open>i < n\<close> have "Insert_loop n i b k v ii =
              Insert_loop n (i + 1) b k v (if ii = n then i else ii)"
            by (subst Insert_loop.simps) (simp add: Let_def)
          also have "(\<dots> = None) = ?R (i + 1)"
            using "1.IH"(1) [OF \<open>i < n\<close> _ _ refl] nr True nd' by simp
          finally show ?thesis using step [OF nd] True by simp
        qed
      qed
    qed
  qed
qed

lemma Insert_loop_Some:
  "Insert_loop n i b k v ii = Some r \<Longrightarrow>
     (ii \<noteq> n \<longrightarrow> r = ii) \<and>
     (ii = n \<longrightarrow> (r = n \<and> (\<forall>s. i \<le> s \<and> s < n \<longrightarrow> IsReadable b s)) \<or>
                (i \<le> r \<and> r < n \<and> \<not> IsReadable b r \<and> (\<forall>s. i \<le> s \<and> s < r \<longrightarrow> IsReadable b s)))"
proof (induction n i b k v ii arbitrary: r rule: Insert_loop.induct)
  case (1 n i b k v ii)
  show ?case
  proof (cases "i < n")
    case False
    with "1.prems" show ?thesis by (subst (asm) Insert_loop.simps) auto
  next
    case True
    show ?thesis
    proof (cases "IsReadable b i")
      case r: True
      with True "1.prems" have nd: "\<not> (IsReadable b i \<and> fst (array b ! i) = k \<and> snd (array b ! i) = v)"
        and rec: "Insert_loop n (i + 1) b k v ii = Some r"
        by (subst (asm) Insert_loop.simps, simp split: if_splits)+
      from "1.IH"(2) [OF True nd _ rec] r
      have IH: "(ii \<noteq> n \<longrightarrow> r = ii) \<and>
         (ii = n \<longrightarrow> (r = n \<and> (\<forall>s. i + 1 \<le> s \<and> s < n \<longrightarrow> IsReadable b s)) \<or>
                (i + 1 \<le> r \<and> r < n \<and> \<not> IsReadable b r \<and> (\<forall>s. i + 1 \<le> s \<and> s < r \<longrightarrow> IsReadable b s)))"
        by simp
      have ext: "(\<forall>s. i \<le> s \<and> s < m \<longrightarrow> IsReadable b s)" if "\<forall>s. i + 1 \<le> s \<and> s < m \<longrightarrow> IsReadable b s" for m
      proof (intro allI impI)
        fix s assume "i \<le> s \<and> s < m"
        then show "IsReadable b s" using that r by (cases "s = i") auto
      qed
      from IH ext show ?thesis by auto
    next
      case nr: False
      show ?thesis
      proof (cases "IsOccupied b i")
        case False
        with nr True "1.prems" have "r = (if ii = n then i else ii)"
          by (subst (asm) Insert_loop.simps) (simp add: Let_def)
        with nr True show ?thesis by auto
      next
        case occ: True
        with nr True "1.prems" have rec: "Insert_loop n (i + 1) b k v (if ii = n then i else ii) = Some r"
          by (subst (asm) Insert_loop.simps) (simp add: Let_def)
        have nd: "\<not> (IsReadable b i \<and> fst (array b ! i) = k \<and> snd (array b ! i) = v)"
          using nr by simp
        from "1.IH"(1) [OF True nd _ refl _ rec] nr occ True
        have "r = (if ii = n then i else ii)"
          by (auto split: if_splits)
        with nr True show ?thesis by auto
      qed
    qed
  qed
qed

section \<open>The scan of Insert on a bucket page\<close>

lemma slot_byte_bound:
  "(j :: nat) < n \<Longrightarrow> j div 8 < (n - 1) div 8 + 1"
proof -
  assume "j < n"
  then have "j \<le> n - 1" by simp
  then have "j div 8 \<le> (n - 1) div 8" by (rule div_le_mono)
  then show ?thesis by simp
qed

lemma IsOccupied_SetReadable [simp]: "IsOccupied (SetReadable b i) j = IsOccupied b j"
  by (simp add: IsOccupied_def SetReadable_def Let_def)

lemma IsOccupied_SetUnreadable [simp]: "IsOccupied (SetUnreadable b i) j = IsOccupied b j"
  by (simp add: IsOccupied_def SetUnreadable_def Let_def)

lemma IsReadable_SetOccupied [simp]: "IsReadable (SetOccupied b i) j = IsReadable b j"
  by (simp add: IsReadable_def SetOccupied_def Let_def)

lemma IsReadable_array_update [simp]: "IsReadable (b\<lparr>array := a\<rparr>) j = IsReadable b j"
  by (simp add: IsReadable_def)

lemma IsOccupied_array_update [simp]: "IsOccupied (b\<lparr>array := a\<rparr>) j = IsOccupied b j"
  by (simp add: IsOccupied_def)

lemma array_Set [simp]:
  "array (SetReadable b i) = array b" "array (SetOccupied b i) = array b"
  "array (SetUnreadable b i) = array b"
  by (simp_all add: SetReadable_def SetOccupied_def SetUnreadable_def Let_def)

lemma bucket_wf_Set [simp]:
  "bucket_wf P (SetReadable b i) = bucket_wf P b"
  "bucket_wf P (SetOccupied b i) = bucket_wf P b"
  "bucket_wf P (SetUnreadable b i) = bucket_wf P b"
  "bucket_wf P (b\<lparr>array := (array b)[j := x]\<rparr>) = bucket_wf P b"
  by (simp_all add: bucket_wf_def SetReadable_def SetOccupied_def SetUnreadable_def Let_def)

lemma Bucket_Insert_dup:
  assumes "scanned P b j" and "IsReadable b j" and "array b ! j = (key, val)"
  shows "Bucket_Insert P b key val = (False, b)"
proof -
  have "Insert_loop (BUCKET_ARRAY_SIZE P) 0 b key val (BUCKET_ARRAY_SIZE P) = None"
    unfolding Insert_loop_None_iff using assms
    by (intro exI [where x = j]) (simp add: scanned_def)
  then show ?thesis
    by (simp add: Bucket_Insert_def)
qed

lemma Bucket_Insert_nodup:
  assumes ro: "\<forall>i<BUCKET_ARRAY_SIZE P. IsReadable b i \<longrightarrow> IsOccupied b i"
    and nd: "\<not> (\<exists>j. scanned P b j \<and> IsReadable b j \<and> array b ! j = (key, val))"
  obtains r where "Insert_loop (BUCKET_ARRAY_SIZE P) 0 b key val (BUCKET_ARRAY_SIZE P) = Some r"
    and "(r = BUCKET_ARRAY_SIZE P \<and> (\<forall>s<BUCKET_ARRAY_SIZE P. IsReadable b s)) \<or>
         (r < BUCKET_ARRAY_SIZE P \<and> \<not> IsReadable b r \<and> (\<forall>s<r. IsReadable b s))"
proof -
  let ?n = "BUCKET_ARRAY_SIZE P"
  have "Insert_loop ?n 0 b key val ?n \<noteq> None"
  proof
    assume "Insert_loop ?n 0 b key val ?n = None"
    then obtain j where j: "j < ?n" "IsReadable b j" "array b ! j = (key, val)"
      "\<forall>s. s < j \<longrightarrow> IsReadable b s \<or> IsOccupied b s"
      unfolding Insert_loop_None_iff by auto
    have "\<forall>i<j. IsOccupied b i"
    proof (intro allI impI)
      fix i assume "i < j"
      with j(1) have "i < ?n" by simp
      with ro j(4) \<open>i < j\<close> show "IsOccupied b i" by blast
    qed
    with j have "scanned P b j" by (simp add: scanned_def)
    with nd j show False by blast
  qed
  then obtain r where r: "Insert_loop ?n 0 b key val ?n = Some r" by blast
  from Insert_loop_Some [OF r]
  have "(r = ?n \<and> (\<forall>s<?n. IsReadable b s)) \<or> (r < ?n \<and> \<not> IsReadable b r \<and> (\<forall>s<r. IsReadable b s))"
    by simp
  with r that show thesis by blast
qed

lemma Bucket_Insert_full:
  assumes ro: "\<forall>i<BUCKET_ARRAY_SIZE P. IsReadable b i \<longrightarrow> IsOccupied b i"
    and nd: "\<not> (\<exists>j. scanned P b j \<and> IsReadable b j \<and> array b ! j = (key, val))"
    and full: "\<forall>i<BUCKET_ARRAY_SIZE P. IsReadable b i"
  shows "Bucket_Insert P b key val = (False, b)"
proof -
  from ro nd obtain r where r: "Insert_loop (BUCKET_ARRAY_SIZE P) 0 b key val (BUCKET_ARRAY_SIZE P) = Some r"
    and c: "(r = BUCKET_ARRAY_SIZE P \<and> (\<forall>s<BUCKET_ARRAY_SIZE P. IsReadable b s)) \<or>
         (r < BUCKET_ARRAY_SIZE P \<and> \<not> IsReadable b r \<and> (\<forall>s<r. IsReadable b s))"
    by (rule Bucket_Insert_nodup)
  from c full have "r = BUCKET_ARRAY_SIZE P" by blast
  with r show ?thesis by (simp add: Bucket_Insert_def)
qed

lemma Bucket_Insert_free:
  assumes wf: "bucket_wf P b"
    and ro: "\<forall>i<BUCKET_ARRAY_SIZE P. IsReadable b i \<longrightarrow> IsOccupied b i"
    and nd: "\<not> (\<exists>j. scanned P b j \<and> IsReadable b j \<and> array b ! j = (key, val))"
    and j: "j < BUCKET_ARRAY_SIZE P" "\<not> IsReadable b j" "\<forall>i<j. IsReadable b i"
  shows "\<exists>b'. Bucket_Insert P b key val = (True, b') \<and> bucket_wf P b' \<and>
           array b' = (array b)[j := (key, val)] \<and>
           (\<forall>i. IsOccupied b' i = (i = j \<or> IsOccupied b i)) \<and>
           (\<forall>i. IsReadable b' i = (i = j \<or> IsReadable b i))"
proof -
  from ro nd obtain r where r: "Insert_loop (BUCKET_ARRAY_SIZE P) 0 b key val (BUCKET_ARRAY_SIZE P) = Some r"
    and c: "(r = BUCKET_ARRAY_SIZE P \<and> (\<forall>s<BUCKET_ARRAY_SIZE P. IsReadable b s)) \<or>
         (r < BUCKET_ARRAY_SIZE P \<and> \<not> IsReadable b r \<and> (\<forall>s<r. IsReadable b s))"
    by (rule Bucket_Insert_nodup)
  from c j have rj: "r = j"
    by (metis linorder_neqE_nat)
  let ?b' = "SetReadable (SetOccupied (b\<lparr>array := (array b)[j := (key, val)]\<rparr>) j) j"
  have byte: "j div 8 < (BUCKET_ARRAY_SIZE P - 1) div 8 + 1"
    using j(1) by (rule slot_byte_bound)
  have lo: "j div 8 < length (occupied (b\<lparr>array := (array b)[j := (key, val)]\<rparr>))"
    using byte wf by (simp add: bucket_wf_def)
  have lr: "j div 8 < length (readable (SetOccupied (b\<lparr>array := (array b)[j := (key, val)]\<rparr>) j))"
    using byte wf by (simp add: bucket_wf_def SetOccupied_def Let_def)
  have "Bucket_Insert P b key val = (True, ?b')"
    using r rj j(1) by (simp add: Bucket_Insert_def)
  moreover have "bucket_wf P ?b'"
    using wf by simp
  moreover have "array ?b' = (array b)[j := (key, val)]"
    by simp
  moreover have "\<forall>i. IsOccupied ?b' i = (i = j \<or> IsOccupied b i)"
    using lo by (simp add: IsOccupied_SetOccupied)
  moreover have "\<forall>i. IsReadable ?b' i = (i = j \<or> IsReadable b i)"
    using lr by (simp add: IsReadable_SetReadable)
  ultimately show ?thesis by blast
qed

text \<open>
  C3.  \<open>BucketPage::Insert\<close> on a page in which every readable slot is occupied.
  The scan covers the slots up to the first one whose occupied bit is \<open>0\<close>
  (\<open>scanned\<close>).  If a readable slot of that range holds the pair, \<open>Insert\<close> returns
  false and leaves the page as it is.  Otherwise, if the range has a slot \<open>j\<close> that is
  not readable and is the earliest such slot, \<open>Insert\<close> returns true, writes the pair
  into slot \<open>j\<close> and sets the occupied and the readable bit of \<open>j\<close>, changing no other
  bit; and if every slot is readable (the page is full) it returns false and leaves
  the page as it is.  One of the last two cases always applies.
\<close>

theorem Bucket_Insert_spec:
  assumes "0 < BUCKET_ARRAY_SIZE P" and "bucket_wf P b"
    and "\<forall>i<BUCKET_ARRAY_SIZE P. IsReadable b i \<longrightarrow> IsOccupied b i"
  shows "((\<exists>j. scanned P b j \<and> IsReadable b j \<and> array b ! j = (key, val)) \<longrightarrow>
            Bucket_Insert P b key val = (False, b)) \<and>
         (\<not> (\<exists>j. scanned P b j \<and> IsReadable b j \<and> array b ! j = (key, val)) \<longrightarrow>
            (\<forall>j. scanned P b j \<and> \<not> IsReadable b j \<and> (\<forall>i<j. IsReadable b i) \<longrightarrow>
               (\<exists>b'. Bucket_Insert P b key val = (True, b') \<and> bucket_wf P b' \<and>
                  array b' = (array b)[j := (key, val)] \<and>
                  (\<forall>i. IsOccupied b' i = (i = j \<or> IsOccupied b i)) \<and>
                  (\<forall>i. IsReadable b' i = (i = j \<or> IsReadable b i)))) \<and>
            ((\<forall>i<BUCKET_ARRAY_SIZE P. IsReadable b i) \<longrightarrow>
               Bucket_Insert P b key val = (False, b)) \<and>
            ((\<exists>j. scanned P b j \<and> \<not> IsReadable b j \<and> (\<forall>i<j. IsReadable b i)) \<or>
             (\<forall>i<BUCKET_ARRAY_SIZE P. IsReadable b i)))"
proof (intro conjI impI allI)
  assume "\<exists>j. scanned P b j \<and> IsReadable b j \<and> array b ! j = (key, val)"
  then obtain j where "scanned P b j" "IsReadable b j" "array b ! j = (key, val)"
    by blast
  then show "Bucket_Insert P b key val = (False, b)"
    by (rule Bucket_Insert_dup)
next
  fix j
  assume "\<not> (\<exists>j. scanned P b j \<and> IsReadable b j \<and> array b ! j = (key, val))"
    and "scanned P b j \<and> \<not> IsReadable b j \<and> (\<forall>i<j. IsReadable b i)"
  with assms show "\<exists>b'. Bucket_Insert P b key val = (True, b') \<and> bucket_wf P b' \<and>
                  array b' = (array b)[j := (key, val)] \<and>
                  (\<forall>i. IsOccupied b' i = (i = j \<or> IsOccupied b i)) \<and>
                  (\<forall>i. IsReadable b' i = (i = j \<or> IsReadable b i))"
    by (intro Bucket_Insert_free) (simp_all add: scanned_def)
next
  assume "\<not> (\<exists>j. scanned P b j \<and> IsReadable b j \<and> array b ! j = (key, val))"
    and "\<forall>i<BUCKET_ARRAY_SIZE P. IsReadable b i"
  with assms show "Bucket_Insert P b key val = (False, b)"
    by (intro Bucket_Insert_full) simp_all
next
  show "(\<exists>j. scanned P b j \<and> \<not> IsReadable b j \<and> (\<forall>i<j. IsReadable b i)) \<or>
        (\<forall>i<BUCKET_ARRAY_SIZE P. IsReadable b i)"
  proof (cases "\<forall>i<BUCKET_ARRAY_SIZE P. IsReadable b i")
    case True
    then show ?thesis by blast
  next
    case False
    then obtain i where i: "i < BUCKET_ARRAY_SIZE P" "\<not> IsReadable b i" by blast
    define j where "j = (LEAST i. i < BUCKET_ARRAY_SIZE P \<and> \<not> IsReadable b i)"
    from i have "i < BUCKET_ARRAY_SIZE P \<and> \<not> IsReadable b i"
      by simp
    then have j: "j < BUCKET_ARRAY_SIZE P \<and> \<not> IsReadable b j"
      unfolding j_def by (rule LeastI)
    have least: "IsReadable b m" if "m < j" for m
    proof (rule ccontr)
      assume "\<not> IsReadable b m"
      moreover have "m < BUCKET_ARRAY_SIZE P" using that j by simp
      ultimately have "m < BUCKET_ARRAY_SIZE P \<and> \<not> IsReadable b m"
        by simp
      then have "j \<le> m"
        unfolding j_def by (rule Least_le)
      with that show False by simp
    qed
    have "\<forall>m<j. IsOccupied b m"
    proof (intro allI impI)
      fix m assume "m < j"
      then have "IsReadable b m" "m < BUCKET_ARRAY_SIZE P" using least j by simp_all
      with assms(3) show "IsOccupied b m" by blast
    qed
    with j least have "scanned P b j \<and> \<not> IsReadable b j \<and> (\<forall>i<j. IsReadable b i)"
      by (simp add: scanned_def)
    then show ?thesis by blast
  qed
qed

lemma less_4_cases: "(j :: nat) < 4 \<Longrightarrow> j = 0 \<or> j = 1 \<or> j = 2 \<or> j = 3"
  by linarith

lemma all_less_4: "(\<forall>i<4::nat. Q i) = (Q 0 \<and> Q 1 \<and> Q 2 \<and> Q 3)"
proof
  assume "\<forall>i<4. Q i"
  then show "Q 0 \<and> Q 1 \<and> Q 2 \<and> Q 3" by simp
next
  assume h: "Q 0 \<and> Q 1 \<and> Q 2 \<and> Q 3"
  show "\<forall>i<4. Q i"
  proof (intro allI impI)
    fix i :: nat assume "i < 4"
    from less_4_cases [OF this] h show "Q i" by blast
  qed
qed

lemma four_tombstone_bits:
  "IsReadable four_tombstone 0" "\<not> IsReadable four_tombstone 1"
  "IsReadable four_tombstone 2" "\<not> IsReadable four_tombstone 3"
  "IsOccupied four_tombstone 0" "IsOccupied four_tombstone 1"
  "IsOccupied four_tombstone 2" "\<not> IsOccupied four_tombstone 3"
  by (simp_all add: IsReadable_bit IsOccupied_bit four_tombstone_def)

lemma four_full_bits:
  "IsReadable four_full 0" "IsReadable four_full 1"
  "IsReadable four_full 2" "IsReadable four_full 3"
  "IsOccupied four_full 0" "IsOccupied four_full 1"
  "IsOccupied four_full 2" "IsOccupied four_full 3"
  by (simp_all add: IsReadable_bit IsOccupied_bit four_full_def)

theorem Bucket_Insert_spec_witness:
  "Bucket_Insert four_params four_tombstone 3 3 = (False, four_tombstone) \<and>
   fst (Bucket_Insert four_params four_tombstone 5 5) \<and>
   array (snd (Bucket_Insert four_params four_tombstone 5 5)) = [(1, 1), (5, 5), (3, 3), (0, 0)] \<and>
   Bucket_Insert four_params four_full 9 9 = (False, four_full)"
proof -
  have n: "0 < BUCKET_ARRAY_SIZE four_params" and n4: "BUCKET_ARRAY_SIZE four_params = 4"
    by (simp_all add: four_params_def)
  have wf: "bucket_wf four_params four_tombstone" "bucket_wf four_params four_full"
    by (simp_all add: bucket_wf_def four_params_def four_tombstone_def four_full_def)
  have ro: "\<forall>i<BUCKET_ARRAY_SIZE four_params. IsReadable four_tombstone i \<longrightarrow> IsOccupied four_tombstone i"
    "\<forall>i<BUCKET_ARRAY_SIZE four_params. IsReadable four_full i \<longrightarrow> IsOccupied four_full i"
    unfolding n4 all_less_4 using four_tombstone_bits four_full_bits by blast+
  have "\<forall>i<2. IsOccupied four_tombstone i"
  proof (intro allI impI)
    fix i :: nat assume "i < 2"
    then have "i = 0 \<or> i = 1" by linarith
    then show "IsOccupied four_tombstone i" using four_tombstone_bits by blast
  qed
  then have sc2: "scanned four_params four_tombstone 2"
    unfolding scanned_def n4 by simp
  have "\<forall>i<1. IsOccupied four_tombstone i"
    using four_tombstone_bits by simp
  then have sc1: "scanned four_params four_tombstone 1"
    unfolding scanned_def n4 by simp
  have dup: "\<exists>j. scanned four_params four_tombstone j \<and> IsReadable four_tombstone j \<and>
      array four_tombstone ! j = (3, 3)"
  proof -
    have "array four_tombstone ! 2 = (3, 3)"
      by (simp add: four_tombstone_def)
    with sc2 four_tombstone_bits(3) show ?thesis by blast
  qed
  have nodup5: "\<not> (\<exists>j. scanned four_params four_tombstone j \<and> IsReadable four_tombstone j \<and>
      array four_tombstone ! j = (5, 5))"
  proof
    assume "\<exists>j. scanned four_params four_tombstone j \<and> IsReadable four_tombstone j \<and>
      array four_tombstone ! j = (5, 5)"
    then obtain j where "j < 4" and "array four_tombstone ! j = (5, 5)"
      by (auto simp add: scanned_def n4)
    then show False
      using less_4_cases [of j] by (auto simp add: four_tombstone_def)
  qed
  have nodup9: "\<not> (\<exists>j. scanned four_params four_full j \<and> IsReadable four_full j \<and>
      array four_full ! j = (9, 9))"
  proof
    assume "\<exists>j. scanned four_params four_full j \<and> IsReadable four_full j \<and>
      array four_full ! j = (9, 9)"
    then obtain j where "j < 4" and "array four_full ! j = (9, 9)"
      by (auto simp add: scanned_def n4)
    then show False
      using less_4_cases [of j] by (auto simp add: four_full_def)
  qed
  have full: "\<forall>i<BUCKET_ARRAY_SIZE four_params. IsReadable four_full i"
    unfolding n4 all_less_4 using four_full_bits by blast
  have free: "scanned four_params four_tombstone 1 \<and> \<not> IsReadable four_tombstone 1 \<and>
      (\<forall>i<1. IsReadable four_tombstone i)"
    using sc1 four_tombstone_bits by simp
  from Bucket_Insert_spec [OF n wf(1) ro(1), of 3 3] dup
  have a: "Bucket_Insert four_params four_tombstone 3 3 = (False, four_tombstone)"
    by blast
  from Bucket_Insert_spec [OF n wf(1) ro(1), of 5 5] nodup5 free
  obtain b' where "Bucket_Insert four_params four_tombstone 5 5 = (True, b')"
    and "array b' = (array four_tombstone)[1 := (5, 5)]"
    by blast
  then have b: "fst (Bucket_Insert four_params four_tombstone 5 5)"
    and c: "array (snd (Bucket_Insert four_params four_tombstone 5 5)) = [(1, 1), (5, 5), (3, 3), (0, 0)]"
    by (simp_all add: four_tombstone_def)
  from Bucket_Insert_spec [OF n wf(2) ro(2), of 9 9] nodup9 full
  have d: "Bucket_Insert four_params four_full 9 9 = (False, four_full)"
    by blast
  from a b c d show ?thesis by blast
qed

section \<open>Emptiness, Merge and ExtraMerge\<close>

lemma IsEmpty_loop_iff:
  "IsEmpty_loop n i b = (\<forall>j. i \<le> j \<and> j < n \<longrightarrow> readable b ! j = 0)"
proof (induction n i b rule: IsEmpty_loop.induct)
  case (1 n i b)
  show ?case
  proof (cases "i < n")
    case True
    show ?thesis
    proof (cases "readable b ! i = 0")
      case z: True
      with True 1 have "IsEmpty_loop n i b = (\<forall>j. i + 1 \<le> j \<and> j < n \<longrightarrow> readable b ! j = 0)"
        by (subst IsEmpty_loop.simps) (simp add: char_to_int_eq_iff int_to_char_0)
      also have "\<dots> = (\<forall>j. i \<le> j \<and> j < n \<longrightarrow> readable b ! j = 0)"
      proof (intro iffI allI impI)
        fix j assume h: "\<forall>j. i + 1 \<le> j \<and> j < n \<longrightarrow> readable b ! j = 0" and j: "i \<le> j \<and> j < n"
        show "readable b ! j = 0"
        proof (cases "j = i")
          case True with z show ?thesis by simp
        next
          case False with j h show ?thesis by simp
        qed
      next
        fix j assume "\<forall>j. i \<le> j \<and> j < n \<longrightarrow> readable b ! j = 0" and "i + 1 \<le> j \<and> j < n"
        then show "readable b ! j = 0" by simp
      qed
      finally show ?thesis .
    next
      case False
      with True show ?thesis
        by (subst IsEmpty_loop.simps) (auto simp add: char_to_int_eq_iff int_to_char_0)
    qed
  next
    case False
    then show ?thesis by (subst IsEmpty_loop.simps) auto
  qed
qed

lemma IsEmpty_iff:
  "IsEmpty P b = (\<forall>i < 8 * ((BUCKET_ARRAY_SIZE P - 1) div 8 + 1). \<not> IsReadable b i)"
proof -
  let ?m = "(BUCKET_ARRAY_SIZE P - 1) div 8 + 1"
  have "IsEmpty P b = (\<forall>j<?m. readable b ! j = 0)"
    by (simp add: IsEmpty_def IsEmpty_loop_iff)
  also have "\<dots> = (\<forall>i < 8 * ?m. \<not> IsReadable b i)"
  proof
    assume h: "\<forall>j<?m. readable b ! j = 0"
    show "\<forall>i < 8 * ?m. \<not> IsReadable b i"
    proof (intro allI impI)
      fix i assume "i < 8 * ?m"
      then have "i div 8 < ?m" by simp
      with h have "readable b ! (i div 8) = 0" by blast
      then show "\<not> IsReadable b i" by (simp add: IsReadable_bit)
    qed
  next
    assume h: "\<forall>i < 8 * ?m. \<not> IsReadable b i"
    show "\<forall>j<?m. readable b ! j = 0"
    proof (intro allI impI)
      fix j assume j: "j < ?m"
      have "\<not> bit (readable b ! j) k" if "k < 8" for k
      proof -
        have "8 * j + k < 8 * ?m" using j that by simp
        with h have "\<not> IsReadable b (8 * j + k)" by blast
        then show ?thesis using that by (simp add: IsReadable_bit)
      qed
      then show "readable b ! j = 0" by (simp add: char_0_iff)
    qed
  qed
  finally show ?thesis .
qed

lemma new_bucket_page_bytes:
  assumes "i < 8 * ((BUCKET_ARRAY_SIZE P - 1) div 8 + 1)"
  shows "readable (new_bucket_page P) ! (i div 8) = 0"
    and "occupied (new_bucket_page P) ! (i div 8) = 0"
proof -
  from assms have "i div 8 < (BUCKET_ARRAY_SIZE P - 1) div 8 + 1"
    by simp
  then show "readable (new_bucket_page P) ! (i div 8) = 0"
    and "occupied (new_bucket_page P) ! (i div 8) = 0"
    unfolding new_bucket_page_def by (simp_all del: replicate.simps)
qed

lemma new_bucket_page_unreadable:
  "i < 8 * ((BUCKET_ARRAY_SIZE P - 1) div 8 + 1) \<Longrightarrow> \<not> IsReadable (new_bucket_page P) i"
  by (simp add: IsReadable_bit new_bucket_page_bytes)

lemma new_bucket_page_unoccupied:
  "i < 8 * ((BUCKET_ARRAY_SIZE P - 1) div 8 + 1) \<Longrightarrow> \<not> IsOccupied (new_bucket_page P) i"
  by (simp add: IsOccupied_bit new_bucket_page_bytes)

lemma bucket_wf_new [simp]: "bucket_wf P (new_bucket_page P)"
  by (simp add: bucket_wf_def new_bucket_page_def)

lemma slot_bit_bound: "(j :: nat) < n \<Longrightarrow> j < 8 * ((n - 1) div 8 + 1)"
  using slot_byte_bound [of j n] by simp

lemma word_gt_0_iff: "(0 < (w :: 32 word)) = (w \<noteq> 0)"
  by (simp add: word_neq_0_conv)

lemma Merge_unfold:
  "Merge P s key val =
     (let d = dir_page s;
          index = KeyToDirectoryIndex P key d;
          bucket_page_id = KeyToPageId P key d;
          local_depth = GetLocalDepth d index
      in case FetchBucketPage s bucket_page_id of
           None \<Rightarrow> None
         | Some bucket_page \<Rightarrow>
             Some (if local_depth \<noteq> 0 \<and> IsEmpty P bucket_page \<and>
                      GetLocalDepth d (GetSplitImageIndex d index) = local_depth
                   then s\<lparr>dir_page := spec_Merge_directory d index,
                          pages := fmdrop bucket_page_id (pages s)\<rparr>
                   else s))"
proof (cases "FetchBucketPage s (KeyToPageId P key (dir_page s))")
  case None
  then show ?thesis by (simp add: Merge_def Let_def)
next
  case (Some bucket_page)
  have loops: "fold (Merge_decr sm idx) (index_range 0 n)
          (fold (Merge_redirect lm idx a) (index_range 0 n) d) =
        d\<lparr>bucket_page_ids := (\<lambda>j. if j < n \<and> j AND lm = idx AND lm then a
                                   else bucket_page_ids d j),
          local_depths := (\<lambda>j. if j < n \<and> j AND sm = idx AND sm then local_depths d j - 1
                                else local_depths d j)\<rparr>" for sm lm idx a n d
    by (simp add: fold_Merge_redirect fold_Merge_decr distinct_index_range set_index_range
        cong: if_cong)
  show ?thesis
    unfolding Merge_def spec_Merge_directory_def Let_def loops Merge_shift_def
    using Some by (simp add: word_gt_0_iff DeletePage_def)
qed

text \<open>
  C6.  \<open>Merge\<close> fetches the page the key is routed to.  If the local depth of that
  slot is \<open>0\<close>, or the page is not empty, or the local depth of the split image
  differs, the state is returned as it is.  Otherwise the result is the state
  without that page and with the merged directory of the specification.
\<close>

theorem Merge_spec:
  "Merge P s key val =
     (let d = dir_page s;
          index = KeyToDirectoryIndex P key d;
          bucket_page_id = KeyToPageId P key d;
          local_depth = GetLocalDepth d index
      in case FetchBucketPage s bucket_page_id of
           None \<Rightarrow> None
         | Some bucket_page \<Rightarrow>
             Some (if local_depth \<noteq> 0 \<and> IsEmpty P bucket_page \<and>
                      GetLocalDepth d (GetSplitImageIndex d index) = local_depth
                   then s\<lparr>dir_page := spec_Merge_directory d index,
                          pages := fmdrop bucket_page_id (pages s)\<rparr>
                   else s))"
  by (rule Merge_unfold)

lemma ExtraMerge_unfold:
  "ExtraMerge P s key val =
     (let d = dir_page s;
          bucket_page_id = KeyToPageId P key d;
          index = KeyToDirectoryIndex P key d;
          local_depth = GetLocalDepth d index;
          extra_bucket_page_id = GetBucketPageId d (GetSplitImageIndex d index)
      in if local_depth = 0 then Some (False, s)
         else case FetchBucketPage s extra_bucket_page_id of
           None \<Rightarrow> None
         | Some extra_bucket \<Rightarrow>
             if GetLocalDepth d (GetSplitImageIndex d index) = local_depth \<and>
                IsEmpty P extra_bucket
             then Some (True,
                    s\<lparr>dir_page := spec_ExtraMerge_directory d bucket_page_id extra_bucket_page_id,
                      pages := fmdrop extra_bucket_page_id (pages s)\<rparr>)
             else Some (False, s))"
proof -
  have loop: "fold (ExtraMerge_step e c) (index_range 0 n) d =
      d\<lparr>bucket_page_ids := (\<lambda>j. if j < n \<and> bucket_page_ids d j = e then c
                                else bucket_page_ids d j),
       local_depths := (\<lambda>j. if j < n \<and> (bucket_page_ids d j = e \<or> bucket_page_ids d j = c)
                              then local_depths d j - 1 else local_depths d j)\<rparr>" for e c n d
    by (simp add: fold_ExtraMerge_step distinct_index_range set_index_range cong: if_cong)
  show ?thesis
    unfolding ExtraMerge_def spec_ExtraMerge_directory_def Let_def loop
    by (simp add: word_gt_0_iff DeletePage_def split: option.split)
qed

text \<open>
  C7.  \<open>ExtraMerge\<close> returns true exactly when the local depth of the key's slot is
  not \<open>0\<close>, the page of the split image is empty, and the split image has the same
  local depth; the result then is the state without the page of the split image and
  with the directory of the specification after a reverse merge.  In every other
  case it returns false and the state as it is.
\<close>

theorem ExtraMerge_spec:
  "ExtraMerge P s key val =
     (let d = dir_page s;
          bucket_page_id = KeyToPageId P key d;
          index = KeyToDirectoryIndex P key d;
          local_depth = GetLocalDepth d index;
          extra_bucket_page_id = GetBucketPageId d (GetSplitImageIndex d index)
      in if local_depth = 0 then Some (False, s)
         else case FetchBucketPage s extra_bucket_page_id of
           None \<Rightarrow> None
         | Some extra_bucket \<Rightarrow>
             if GetLocalDepth d (GetSplitImageIndex d index) = local_depth \<and>
                IsEmpty P extra_bucket
             then Some (True,
                    s\<lparr>dir_page := spec_ExtraMerge_directory d bucket_page_id extra_bucket_page_id,
                      pages := fmdrop extra_bucket_page_id (pages s)\<rparr>)
             else Some (False, s))"
  by (rule ExtraMerge_unfold)

section \<open>Claims refuted by evaluation\<close>

text \<open>
  C4.  A second \<open>Insert\<close> of a pair the table holds is claimed to return false and to
  leave the whole index as it is, also when the page that holds the pair is full.
  With two slots per page, \<open>Insert(7, 0)\<close> and \<open>Insert(7, 1)\<close> fill the only page.
  \<open>Insert(7, 1)\<close> again returns false, but it has split the page: the global depth
  went from 0 to 1 and a new page was allocated.
\<close>

theorem Insert_duplicate_into_full_page_splits:
  "(case run two_params (ExtendibleHashTable two_params) [Insert_op 7 0, Insert_op 7 1] of
     None \<Rightarrow> False
   | Some t \<Rightarrow>
       (case Insert two_params t 7 1 of
          None \<Rightarrow> False
        | Some (r, t') \<Rightarrow>
            GetValue two_params t 7 [] = Some (True, [0, 1]) \<and>
            \<not> r \<and> global_depth (dir_page t) = 0 \<and> global_depth (dir_page t') = 1 \<and>
            next_page_id t = 2 \<and> next_page_id t' = 3))"
  by code_simp

text \<open>
  C10.  \<open>Merge\<close> is claimed never to shift by \<open>local_depth - 1\<close> with \<open>local_depth = 0\<close>.
  On a new table of the instantiation for \<open>int\<close> keys and values, \<open>Insert(1, 1)\<close>
  succeeds; in \<open>Remove(1, 1)\<close> the page's \<open>Remove\<close> returns true and leaves the page
  empty, which is the condition under which \<open>Remove\<close> calls \<open>Merge\<close>; the local depth
  \<open>Merge\<close> reads is 0 and the shift amount it computes is \<open>4294967295\<close>.
\<close>

theorem Merge_shift_wraps_at_depth_0:
  "(case Insert int_params (ExtendibleHashTable int_params) 1 1 of
     None \<Rightarrow> False
   | Some (r, t) \<Rightarrow>
       (case FetchBucketPage t (KeyToPageId int_params 1 (dir_page t)) of
          None \<Rightarrow> False
        | Some b \<Rightarrow>
            (let (ret, b') = Bucket_Remove int_params b 1 1;
                 t' = store_page t (KeyToPageId int_params 1 (dir_page t)) b'
             in r \<and> ret \<and> IsEmpty int_params b' \<and>
                GetLocalDepth (dir_page t') (KeyToDirectoryIndex int_params 1 (dir_page t')) = 0 \<and>
                Merge_shift int_params t' 1 = 4294967295 \<and>
                32 \<le> Merge_shift int_params t' 1)))"
  by code_simp

section \<open>Bucket pages under their invariant\<close>

lemma in_entries_iff:
  "(x \<in> entries P b) = (\<exists>i<BUCKET_ARRAY_SIZE P. IsReadable b i \<and> array b ! i = x)"
  by (auto simp add: entries_def GetAllItem_def)

lemma bucket_invD:
  assumes "bucket_inv P b"
  shows "i < BUCKET_ARRAY_SIZE P \<Longrightarrow> IsReadable b i \<Longrightarrow> IsOccupied b i"
    and "i < BUCKET_ARRAY_SIZE P \<Longrightarrow> IsOccupied b i \<Longrightarrow> j < i \<Longrightarrow> IsOccupied b j"
    and "i < BUCKET_ARRAY_SIZE P \<Longrightarrow> j < BUCKET_ARRAY_SIZE P \<Longrightarrow> IsReadable b i \<Longrightarrow>
         IsReadable b j \<Longrightarrow> array b ! i = array b ! j \<Longrightarrow> i = j"
    and "BUCKET_ARRAY_SIZE P \<le> i \<Longrightarrow> i < 8 * ((BUCKET_ARRAY_SIZE P - 1) div 8 + 1) \<Longrightarrow>
         \<not> IsReadable b i"
  using assms unfolding bucket_inv_def by blast+

lemma readable_scanned:
  assumes "bucket_inv P b" and "i < BUCKET_ARRAY_SIZE P" and "IsReadable b i"
  shows "scanned P b i"
proof -
  have "IsOccupied b i"
    using assms by (rule bucket_invD(1))
  then have "\<forall>j<i. IsOccupied b j"
    using bucket_invD(2) [OF assms(1,2)] by blast
  with assms(2) show ?thesis
    by (simp add: scanned_def)
qed

lemma IsFull_readable:
  assumes "0 < BUCKET_ARRAY_SIZE P" and "bucket_inv P b"
  shows "IsFull P b = (\<forall>i<BUCKET_ARRAY_SIZE P. IsReadable b i)"
  using assms(1) bucket_invD(4) [OF assms(2)] by (intro IsFull_all_readable) blast+

lemma IsEmpty_entries:
  assumes "bucket_inv P b"
  shows "IsEmpty P b = (entries P b = {})"
proof
  assume "IsEmpty P b"
  then have "\<forall>i<BUCKET_ARRAY_SIZE P. \<not> IsReadable b i"
    unfolding IsEmpty_iff using slot_bit_bound by blast
  then show "entries P b = {}"
    using in_entries_iff [of _ P b] by blast
next
  assume e: "entries P b = {}"
  show "IsEmpty P b"
    unfolding IsEmpty_iff
  proof (intro allI impI)
    fix i assume i: "i < 8 * ((BUCKET_ARRAY_SIZE P - 1) div 8 + 1)"
    show "\<not> IsReadable b i"
    proof (cases "i < BUCKET_ARRAY_SIZE P")
      case True
      with e in_entries_iff [of "array b ! i" P b] show ?thesis by blast
    next
      case False
      with i bucket_invD(4) [OF assms] show ?thesis by simp
    qed
  qed
qed

lemma new_bucket_page_slot_unreadable:
  "i < BUCKET_ARRAY_SIZE P \<Longrightarrow> \<not> IsReadable (new_bucket_page P) i"
  by (rule new_bucket_page_unreadable) (rule slot_bit_bound)

lemma new_bucket_page_slot_unoccupied:
  "i < BUCKET_ARRAY_SIZE P \<Longrightarrow> \<not> IsOccupied (new_bucket_page P) i"
  by (rule new_bucket_page_unoccupied) (rule slot_bit_bound)

lemma bucket_inv_new: "bucket_inv P (new_bucket_page P)"
  unfolding bucket_inv_def
proof (intro conjI allI impI)
  fix i assume "i < BUCKET_ARRAY_SIZE P" "IsReadable (new_bucket_page P) i"
  then show "IsOccupied (new_bucket_page P) i"
    using new_bucket_page_slot_unreadable by blast
next
  fix i j assume "i < BUCKET_ARRAY_SIZE P" "IsOccupied (new_bucket_page P) i"
  then show "IsOccupied (new_bucket_page P) j"
    using new_bucket_page_slot_unoccupied by blast
next
  fix i j assume "i < BUCKET_ARRAY_SIZE P"
    "IsReadable (new_bucket_page P) i \<and> IsReadable (new_bucket_page P) j \<and>
     array (new_bucket_page P) ! i = array (new_bucket_page P) ! j"
  then show "i = j"
    using new_bucket_page_slot_unreadable by blast
next
  fix i assume "BUCKET_ARRAY_SIZE P \<le> i \<and> i < 8 * ((BUCKET_ARRAY_SIZE P - 1) div 8 + 1)"
  then show "\<not> IsReadable (new_bucket_page P) i"
    using new_bucket_page_unreadable by blast
qed

lemma entries_new: "entries P (new_bucket_page P) = {}"
proof -
  have "x \<notin> entries P (new_bucket_page P)" for x
    unfolding in_entries_iff using new_bucket_page_slot_unreadable by blast
  then show ?thesis by blast
qed

lemma Bucket_Insert_present:
  assumes "bucket_inv P b" and "(key, val) \<in> entries P b"
  shows "Bucket_Insert P b key val = (False, b)"
proof -
  from assms(2) obtain i where i: "i < BUCKET_ARRAY_SIZE P" "IsReadable b i"
    "array b ! i = (key, val)"
    unfolding in_entries_iff by blast
  from readable_scanned [OF assms(1) i(1,2)] i(2,3) show ?thesis
    by (rule Bucket_Insert_dup)
qed

lemma not_entries_nodup:
  assumes "(key, val) \<notin> entries P b"
  shows "\<not> (\<exists>j. scanned P b j \<and> IsReadable b j \<and> array b ! j = (key, val))"
  using assms unfolding in_entries_iff scanned_def by blast

lemma Bucket_Insert_absent_full:
  assumes "bucket_inv P b" and "(key, val) \<notin> entries P b"
    and "\<forall>i<BUCKET_ARRAY_SIZE P. IsReadable b i"
  shows "Bucket_Insert P b key val = (False, b)"
proof (rule Bucket_Insert_full)
  show "\<forall>i<BUCKET_ARRAY_SIZE P. IsReadable b i \<longrightarrow> IsOccupied b i"
    using bucket_invD(1) [OF assms(1)] by blast
  show "\<not> (\<exists>j. scanned P b j \<and> IsReadable b j \<and> array b ! j = (key, val))"
    using assms(2) by (rule not_entries_nodup)
  show "\<forall>i<BUCKET_ARRAY_SIZE P. IsReadable b i"
    by (rule assms(3))
qed

lemma least_unreadable:
  assumes "\<not> (\<forall>i<n. IsReadable b i)"
  obtains j where "j < n" and "\<not> IsReadable b j" and "\<forall>i<j. IsReadable b i"
proof -
  from assms obtain i where "i < n \<and> \<not> IsReadable b i" by blast
  define j where "j = (LEAST i. i < n \<and> \<not> IsReadable b i)"
  from \<open>i < n \<and> \<not> IsReadable b i\<close> have j: "j < n \<and> \<not> IsReadable b j"
    unfolding j_def by (rule LeastI)
  have "IsReadable b m" if "m < j" for m
  proof (rule ccontr)
    assume "\<not> IsReadable b m"
    moreover have "m < n" using that j by simp
    ultimately have "m < n \<and> \<not> IsReadable b m" by simp
    then have "j \<le> m" unfolding j_def by (rule Least_le)
    with that show False by simp
  qed
  with j that show thesis by blast
qed

lemma Bucket_Insert_absent_free:
  assumes wf: "bucket_wf P b" and inv: "bucket_inv P b"
    and absent: "(key, val) \<notin> entries P b"
    and room: "\<not> (\<forall>i<BUCKET_ARRAY_SIZE P. IsReadable b i)"
  shows "\<exists>b'. Bucket_Insert P b key val = (True, b') \<and> bucket_wf P b' \<and> bucket_inv P b' \<and>
           entries P b' = insert (key, val) (entries P b)"
proof -
  let ?n = "BUCKET_ARRAY_SIZE P"
  from room obtain j where j: "j < ?n" "\<not> IsReadable b j" "\<forall>i<j. IsReadable b i"
    by (rule least_unreadable)
  have ro: "\<forall>i<?n. IsReadable b i \<longrightarrow> IsOccupied b i"
    using bucket_invD(1) [OF inv] by blast
  from Bucket_Insert_free [OF wf ro not_entries_nodup [OF absent] j]
  obtain b' where b': "Bucket_Insert P b key val = (True, b')" "bucket_wf P b'"
    "array b' = (array b)[j := (key, val)]"
    "\<forall>i. IsOccupied b' i = (i = j \<or> IsOccupied b i)"
    "\<forall>i. IsReadable b' i = (i = j \<or> IsReadable b i)"
    by blast
  have len: "j < length (array b)"
    using wf j(1) by (simp add: bucket_wf_def)
  have arr: "array b' ! i = (if i = j then (key, val) else array b ! i)" for i
    using len by (simp add: b'(3) nth_list_update)
  have occ_before: "IsOccupied b m" if "m < j" for m
    using j(1,3) that bucket_invD(1) [OF inv, of m] by simp
  have "bucket_inv P b'"
    unfolding bucket_inv_def
  proof (intro conjI allI impI)
    fix i assume "i < ?n" "IsReadable b' i"
    then show "IsOccupied b' i"
      using b'(4,5) bucket_invD(1) [OF inv, of i] by blast
  next
    fix i m assume i: "i < ?n" "IsOccupied b' i" "m < i"
    show "IsOccupied b' m"
    proof (cases "i = j")
      case True
      with i(3) occ_before b'(4) show ?thesis by blast
    next
      case False
      with i b'(4) have "IsOccupied b i" by blast
      from bucket_invD(2) [OF inv i(1) this i(3)] b'(4) show ?thesis by blast
    qed
  next
    fix i m
    assume i: "i < ?n" and m: "m < ?n"
      and h: "IsReadable b' i \<and> IsReadable b' m \<and> array b' ! i = array b' ! m"
    show "i = m"
    proof (cases "i = j")
      case ij: True
      show ?thesis
      proof (cases "m = j")
        case True with ij show ?thesis by simp
      next
        case False
        with h b'(5) ij arr have "IsReadable b m" "array b ! m = (key, val)" by auto
        with m absent show ?thesis unfolding in_entries_iff by blast
      qed
    next
      case nij: False
      show ?thesis
      proof (cases "m = j")
        case True
        with h b'(5) nij arr have "IsReadable b i" "array b ! i = (key, val)" by auto
        with i absent show ?thesis unfolding in_entries_iff by blast
      next
        case False
        with nij h b'(5) arr have "IsReadable b i" "IsReadable b m" "array b ! i = array b ! m"
          by auto
        with i m show ?thesis by (intro bucket_invD(3) [OF inv])
      qed
    qed
  next
    fix i assume i: "?n \<le> i \<and> i < 8 * ((?n - 1) div 8 + 1)"
    then have "i \<noteq> j" using j(1) by simp
    moreover have "\<not> IsReadable b i" using i bucket_invD(4) [OF inv] by blast
    ultimately show "\<not> IsReadable b' i" using b'(5) by blast
  qed
  moreover have "entries P b' = insert (key, val) (entries P b)"
  proof (intro set_eqI iffI)
    fix x assume "x \<in> entries P b'"
    then obtain i where i: "i < ?n" "IsReadable b' i" "array b' ! i = x"
      unfolding in_entries_iff by blast
    show "x \<in> insert (key, val) (entries P b)"
    proof (cases "i = j")
      case True with i arr show ?thesis by simp
    next
      case False
      with i b'(5) arr have "IsReadable b i" "array b ! i = x" by auto
      with i(1) have "x \<in> entries P b" unfolding in_entries_iff by blast
      then show ?thesis by simp
    qed
  next
    fix x assume x: "x \<in> insert (key, val) (entries P b)"
    show "x \<in> entries P b'"
    proof (cases "x = (key, val)")
      case True
      with j(1) b'(5) arr show ?thesis unfolding in_entries_iff by (intro exI [where x = j]) simp
    next
      case False
      with x have "x \<in> entries P b" by simp
      then obtain i where i: "i < ?n" "IsReadable b i" "array b ! i = x"
        unfolding in_entries_iff by blast
      with j(2) have "i \<noteq> j" by blast
      with i b'(5) arr show ?thesis unfolding in_entries_iff by (intro exI [where x = i]) simp
    qed
  qed
  ultimately show ?thesis using b'(1,2) by blast
qed

lemma bucket_inv_SetUnreadable:
  assumes wf: "bucket_wf P b" and inv: "bucket_inv P b" and j: "j < BUCKET_ARRAY_SIZE P"
  shows "bucket_inv P (SetUnreadable b j)"
    and "IsReadable b j \<Longrightarrow> entries P (SetUnreadable b j) = entries P b - {array b ! j}"
    and "\<not> IsReadable b j \<Longrightarrow> entries P (SetUnreadable b j) = entries P b"
proof -
  have "j div 8 < length (readable b)"
    using wf slot_byte_bound [OF j] by (simp add: bucket_wf_def)
  then have r: "IsReadable (SetUnreadable b j) i = (i \<noteq> j \<and> IsReadable b i)" for i
    by (rule IsReadable_SetUnreadable)
  show "bucket_inv P (SetUnreadable b j)"
    unfolding bucket_inv_def
  proof (intro conjI allI impI)
    fix i assume "i < BUCKET_ARRAY_SIZE P" "IsReadable (SetUnreadable b j) i"
    then show "IsOccupied (SetUnreadable b j) i"
      using r bucket_invD(1) [OF inv, of i] by simp
  next
    fix i m assume "i < BUCKET_ARRAY_SIZE P" "IsOccupied (SetUnreadable b j) i" "m < i"
    then show "IsOccupied (SetUnreadable b j) m"
      using bucket_invD(2) [OF inv, of i m] by simp
  next
    fix i m
    assume "i < BUCKET_ARRAY_SIZE P" "m < BUCKET_ARRAY_SIZE P"
      "IsReadable (SetUnreadable b j) i \<and> IsReadable (SetUnreadable b j) m \<and>
       array (SetUnreadable b j) ! i = array (SetUnreadable b j) ! m"
    then show "i = m"
      using r bucket_invD(3) [OF inv, of i m] by simp
  next
    fix i
    assume "BUCKET_ARRAY_SIZE P \<le> i \<and> i < 8 * ((BUCKET_ARRAY_SIZE P - 1) div 8 + 1)"
    then show "\<not> IsReadable (SetUnreadable b j) i"
      using r bucket_invD(4) [OF inv, of i] by simp
  qed
  show "entries P (SetUnreadable b j) = entries P b - {array b ! j}" if rj: "IsReadable b j"
  proof (intro set_eqI iffI)
    fix x assume "x \<in> entries P (SetUnreadable b j)"
    then obtain i where i: "i < BUCKET_ARRAY_SIZE P" "i \<noteq> j" "IsReadable b i" "array b ! i = x"
      unfolding in_entries_iff r by auto
    have "x \<noteq> array b ! j"
      using bucket_invD(3) [OF inv i(1) j i(3) rj] i(2,4) by blast
    moreover from i have "x \<in> entries P b"
      unfolding in_entries_iff by blast
    ultimately show "x \<in> entries P b - {array b ! j}"
      by simp
  next
    fix x assume "x \<in> entries P b - {array b ! j}"
    then have "x \<in> entries P b" and "x \<noteq> array b ! j"
      by simp_all
    then obtain i where i: "i < BUCKET_ARRAY_SIZE P" "IsReadable b i" "array b ! i = x" "x \<noteq> array b ! j"
      unfolding in_entries_iff by blast
    then have "i \<noteq> j" by blast
    with i show "x \<in> entries P (SetUnreadable b j)"
      unfolding in_entries_iff r by (intro exI [where x = i]) simp
  qed
  show "entries P (SetUnreadable b j) = entries P b" if "\<not> IsReadable b j"
    using that unfolding set_eq_iff in_entries_iff r by (metis array_Set(3))
qed

lemma Remove_loop_not_found:
  "\<forall>j. i \<le> j \<and> j < n \<longrightarrow> \<not> (IsReadable b j \<and> array b ! j = (k, v)) \<Longrightarrow>
   Remove_loop n i b k v = (False, b)"
proof (induction n i b k v rule: Remove_loop.induct)
  case (1 n i b k v)
  show ?case
  proof (cases "i < n")
    case False
    then show ?thesis by (subst Remove_loop.simps) simp
  next
    case True
    with "1.prems" have nd: "\<not> (IsReadable b i \<and> fst (array b ! i) = k \<and> snd (array b ! i) = v)"
      by (auto simp add: prod_eq_iff)
    show ?thesis
    proof (cases "IsOccupied b i")
      case False
      with True nd show ?thesis by (subst Remove_loop.simps) auto
    next
      case occ: True
      have "Remove_loop n (i + 1) b k v = (False, b)"
        using "1.prems" by (intro "1.IH" True nd) (simp_all add: occ)
      with True nd occ show ?thesis by (subst Remove_loop.simps) auto
    qed
  qed
qed

lemma Remove_loop_found:
  "i \<le> j \<Longrightarrow> j < n \<Longrightarrow> IsReadable b j \<Longrightarrow> array b ! j = (k, v) \<Longrightarrow>
   \<forall>s. i \<le> s \<and> s < j \<longrightarrow> IsOccupied b s \<and> \<not> (IsReadable b s \<and> array b ! s = (k, v)) \<Longrightarrow>
   Remove_loop n i b k v = (True, SetUnreadable b j)"
proof (induction n i b k v rule: Remove_loop.induct)
  case (1 n i b k v)
  show ?case
  proof (cases "i = j")
    case True
    with "1.prems" show ?thesis by (subst Remove_loop.simps) simp
  next
    case False
    with "1.prems" have lt: "i < j" "i < n" by simp_all
    with "1.prems"(5) have occ: "IsOccupied b i" and nd': "\<not> (IsReadable b i \<and> array b ! i = (k, v))"
      by simp_all
    from nd' have nd: "\<not> (IsReadable b i \<and> fst (array b ! i) = k \<and> snd (array b ! i) = v)"
      by (auto simp add: prod_eq_iff)
    have "Remove_loop n (i + 1) b k v = (True, SetUnreadable b j)"
      using "1.prems" lt by (intro "1.IH" lt(2) nd) (simp_all add: occ)
    with lt nd occ show ?thesis by (subst Remove_loop.simps) auto
  qed
qed

lemma Bucket_Remove_absent:
  assumes "(key, val) \<notin> entries P b"
  shows "Bucket_Remove P b key val = (False, b)"
  unfolding Bucket_Remove_def using assms in_entries_iff [of "(key, val)" P b]
  by (intro Remove_loop_not_found) auto

lemma Bucket_Remove_present:
  assumes wf: "bucket_wf P b" and inv: "bucket_inv P b" and "(key, val) \<in> entries P b"
  shows "\<exists>b'. Bucket_Remove P b key val = (True, b') \<and> bucket_wf P b' \<and> bucket_inv P b' \<and>
           entries P b' = entries P b - {(key, val)}"
proof -
  from assms(3) obtain j where j: "j < BUCKET_ARRAY_SIZE P" "IsReadable b j"
    "array b ! j = (key, val)"
    unfolding in_entries_iff by blast
  have before: "IsOccupied b s \<and> \<not> (IsReadable b s \<and> array b ! s = (key, val))" if "s < j" for s
  proof
    from readable_scanned [OF inv j(1,2)] that show "IsOccupied b s"
      by (simp add: scanned_def)
    show "\<not> (IsReadable b s \<and> array b ! s = (key, val))"
    proof
      assume "IsReadable b s \<and> array b ! s = (key, val)"
      moreover have "s < BUCKET_ARRAY_SIZE P" using that j(1) by simp
      ultimately have "s = j"
        using j by (intro bucket_invD(3) [OF inv]) simp_all
      with that show False by simp
    qed
  qed
  have "Bucket_Remove P b key val = (True, SetUnreadable b j)"
    unfolding Bucket_Remove_def using j before by (intro Remove_loop_found) simp_all
  moreover have "bucket_wf P (SetUnreadable b j)"
    using wf by simp
  moreover note bucket_inv_SetUnreadable(1) [OF wf inv j(1)]
  moreover have "entries P (SetUnreadable b j) = entries P b - {(key, val)}"
    using bucket_inv_SetUnreadable(2) [OF wf inv j(1) j(2)] j(3) by simp
  ultimately show ?thesis by blast
qed

end
